theory Spec2Isabelle
  imports Main "HOL-Library.Word"
begin

unbundle bit_operations_syntax

section \<open>Bytes and slices\<close>

text \<open>
  A \<open>Slice\<close> and a \<open>std::string\<close> are both sequences of bytes; the model uses
  lists of 8-bit words for both.  \<open>uint32_t\<close> and \<open>uint64_t\<close> are 32-bit and
  64-bit words, whose arithmetic wraps as the unsigned C++ types do.
\<close>

type_synonym byte = "8 word"
type_synonym bytes = "byte list"
type_synonym u32 = "32 word"
type_synonym u64 = "64 word"

section \<open>util/coding.cc\<close>

text \<open>\<open>EncodeFixed32\<close>: the four bytes of the value, least significant first.\<close>

definition EncodeFixed32 :: "u32 \<Rightarrow> bytes" where
  "EncodeFixed32 v =
     [ucast (v AND 0xff), ucast (drop_bit 8 v AND 0xff),
      ucast (drop_bit 16 v AND 0xff), ucast (drop_bit 24 v AND 0xff)]"

definition EncodeFixed64 :: "u64 \<Rightarrow> bytes" where
  "EncodeFixed64 v =
     [ucast (v AND 0xff), ucast (drop_bit 8 v AND 0xff),
      ucast (drop_bit 16 v AND 0xff), ucast (drop_bit 24 v AND 0xff),
      ucast (drop_bit 32 v AND 0xff), ucast (drop_bit 40 v AND 0xff),
      ucast (drop_bit 48 v AND 0xff), ucast (drop_bit 56 v AND 0xff)]"

text \<open>
  Modelled from the spec: \<open>DecodeFixed32\<close> and \<open>DecodeFixed64\<close> are inline
  functions of util/coding.h, which is not part of the sources at hand.  Section 4.1
  fixes them as the little-endian readers of four and eight bytes.  The argument is
  the byte sequence starting at the pointer the C++ function receives.
\<close>

definition DecodeFixed32 :: "bytes \<Rightarrow> u32" where
  "DecodeFixed32 p =
     ucast (p ! 0) OR push_bit 8 (ucast (p ! 1)) OR
     push_bit 16 (ucast (p ! 2)) OR push_bit 24 (ucast (p ! 3))"

definition DecodeFixed64 :: "bytes \<Rightarrow> u64" where
  "DecodeFixed64 p =
     ucast (p ! 0) OR push_bit 8 (ucast (p ! 1)) OR
     push_bit 16 (ucast (p ! 2)) OR push_bit 24 (ucast (p ! 3)) OR
     push_bit 32 (ucast (p ! 4)) OR push_bit 40 (ucast (p ! 5)) OR
     push_bit 48 (ucast (p ! 6)) OR push_bit 56 (ucast (p ! 7))"

text \<open>
  \<open>EncodeVarint32\<close>: the five cases of the source.  Storing into an
  \<open>unsigned char\<close> keeps the low eight bits, which is what \<open>ucast\<close> to a byte does.
\<close>

definition EncodeVarint32 :: "u32 \<Rightarrow> bytes" where
  "EncodeVarint32 v =
     (if v < 2 ^ 7 then [ucast v]
      else if v < 2 ^ 14 then [ucast (v OR 128), ucast (drop_bit 7 v)]
      else if v < 2 ^ 21 then
        [ucast (v OR 128), ucast (drop_bit 7 v OR 128), ucast (drop_bit 14 v)]
      else if v < 2 ^ 28 then
        [ucast (v OR 128), ucast (drop_bit 7 v OR 128), ucast (drop_bit 14 v OR 128),
         ucast (drop_bit 21 v)]
      else
        [ucast (v OR 128), ucast (drop_bit 7 v OR 128), ucast (drop_bit 14 v OR 128),
         ucast (drop_bit 21 v OR 128), ucast (drop_bit 28 v)])"

definition PutVarint32 :: "bytes \<Rightarrow> u32 \<Rightarrow> bytes" where
  "PutVarint32 dst v = dst @ EncodeVarint32 v"

text \<open>
  \<open>PutLengthPrefixedSlice\<close>: \<open>value.size()\<close> is a \<open>size_t\<close> passed to a
  \<open>uint32_t\<close> parameter, so the length is reduced modulo \<open>2^32\<close>.
\<close>

definition PutLengthPrefixedSlice :: "bytes \<Rightarrow> bytes \<Rightarrow> bytes" where
  "PutLengthPrefixedSlice dst v = PutVarint32 dst (of_nat (length v)) @ v"

text \<open>
  \<open>GetVarint32PtrFallback\<close>: the loop over \<open>shift = 0, 7, .., 28\<close>; the pointer and
  the limit are the list of bytes from \<open>p\<close> to \<open>limit\<close>.  The result is the decoded
  value and the bytes after it, or \<open>None\<close> for the source's \<open>NULL\<close>.
\<close>

fun GetVarint32Loop :: "nat \<Rightarrow> u32 \<Rightarrow> bytes \<Rightarrow> (u32 \<times> bytes) option" where
  "GetVarint32Loop shift result [] = None"
| "GetVarint32Loop shift result (b # p) =
     (if shift \<le> 28 then
        (if b AND 128 \<noteq> 0
         then GetVarint32Loop (shift + 7) (result OR push_bit shift (ucast (b AND 127))) p
         else Some (result OR push_bit shift (ucast b), p))
      else None)"

definition GetVarint32PtrFallback :: "bytes \<Rightarrow> (u32 \<times> bytes) option" where
  "GetVarint32PtrFallback p = GetVarint32Loop 0 0 p"

text \<open>
  Modelled from the spec: \<open>GetVarint32Ptr\<close> is an inline function of util/coding.h,
  not part of the sources at hand; it is the decoder of section 4.1 with a fast path
  for one-byte values, and otherwise the fallback above.
\<close>

definition GetVarint32Ptr :: "bytes \<Rightarrow> (u32 \<times> bytes) option" where
  "GetVarint32Ptr p =
     (case p of
        b # q \<Rightarrow> if b AND 128 = 0 then Some (ucast b, q) else GetVarint32PtrFallback p
      | [] \<Rightarrow> GetVarint32PtrFallback p)"

definition GetVarint32 :: "bytes \<Rightarrow> (u32 \<times> bytes) option" where
  "GetVarint32 input = GetVarint32Ptr input"

text \<open>
  \<open>GetLengthPrefixedSlice(Slice* input, Slice* result)\<close>: on success the result
  slice and the rest of the input; \<open>None\<close> where the source returns false.
\<close>

definition GetLengthPrefixedSlice :: "bytes \<Rightarrow> (bytes \<times> bytes) option" where
  "GetLengthPrefixedSlice input =
     (case GetVarint32 input of
        None \<Rightarrow> None
      | Some (len, rest) \<Rightarrow>
          if length rest \<ge> unat len then Some (take (unat len) rest, drop (unat len) rest)
          else None)"

section \<open>db/write_batch.cc\<close>

definition kTypeDeletion :: byte where "kTypeDeletion = 0"
definition kTypeValue :: byte where "kTypeValue = 1"

definition kHeader :: nat where "kHeader = 12"

text \<open>A \<open>WriteBatch\<close> is its \<open>rep_\<close> string.\<close>

type_synonym WriteBatch = bytes

definition Clear :: WriteBatch where
  "Clear = replicate kHeader 0"

text \<open>
  \<open>Count\<close> returns the stored count as an \<open>int\<close>: the 32 bits read as a
  two's-complement number.  \<open>SetCount\<close> takes an \<open>int\<close> and stores its low 32
  bits through \<open>EncodeFixed32\<close>.
\<close>

definition Count :: "WriteBatch \<Rightarrow> int" where
  "Count b = sint (DecodeFixed32 (drop 8 b))"

definition SetCount :: "WriteBatch \<Rightarrow> int \<Rightarrow> WriteBatch" where
  "SetCount b n = take 8 b @ EncodeFixed32 (of_int n) @ drop 12 b"

definition Sequence :: "WriteBatch \<Rightarrow> u64" where
  "Sequence b = DecodeFixed64 b"

definition SetSequence :: "WriteBatch \<Rightarrow> u64 \<Rightarrow> WriteBatch" where
  "SetSequence b seq = EncodeFixed64 seq @ drop 8 b"

definition Put :: "bytes \<Rightarrow> bytes \<Rightarrow> WriteBatch \<Rightarrow> WriteBatch" where
  "Put key val b =
     PutLengthPrefixedSlice
       (PutLengthPrefixedSlice (SetCount b (Count b + 1) @ [kTypeValue]) key) val"

definition Delete :: "bytes \<Rightarrow> WriteBatch \<Rightarrow> WriteBatch" where
  "Delete key b =
     PutLengthPrefixedSlice (SetCount b (Count b + 1) @ [kTypeDeletion]) key"

section \<open>The batch of scenario S3\<close>

text \<open>The keys and values of the scenario, as bytes: k1, v1, k2, k3, v3.\<close>

definition s3_batch :: WriteBatch where
  "s3_batch = Put [0x6b, 0x33] [0x76, 0x33] (Delete [0x6b, 0x32] (Put [0x6b, 0x31] [0x76, 0x31] Clear))"

lemma EncodeVarint32_2: "EncodeVarint32 2 = [2]"
  by (simp add: EncodeVarint32_def)

lemma PutLengthPrefixedSlice_2:
  "PutLengthPrefixedSlice dst [a, b] = dst @ [2, a, b]"
  by (simp add: PutLengthPrefixedSlice_def PutVarint32_def EncodeVarint32_2)

lemma length_EncodeFixed32: "length (EncodeFixed32 n) = 4"
  by (simp add: EncodeFixed32_def)

lemma DecodeFixed32_bytes:
  "DecodeFixed32 (a # b # c # d # rest) =
     ucast a OR push_bit 8 (ucast b) OR push_bit 16 (ucast c) OR push_bit 24 (ucast d)"
  by (simp add: DecodeFixed32_def)

lemma Clear_bytes: "Clear = [0, 0, 0, 0, 0, 0, 0, 0, 0, 0, 0, 0]"
  by (simp add: Clear_def kHeader_def numeral_eq_Suc)

lemma s3_batch_bytes:
  "s3_batch =
     [0, 0, 0, 0, 0, 0, 0, 0, 3, 0, 0, 0,
      1, 2, 0x6b, 0x31, 2, 0x76, 0x31,
      0, 2, 0x6b, 0x32,
      1, 2, 0x6b, 0x33, 2, 0x76, 0x33]"
  by (simp add: s3_batch_def Put_def Delete_def Clear_bytes Count_def SetCount_def
      PutLengthPrefixedSlice_2 EncodeFixed32_def DecodeFixed32_bytes
      kTypeValue_def kTypeDeletion_def)

text \<open>
  C3, as stated: the batch built by put(k1, v1), delete(k2), put(k3, v3) on a fresh
  batch has the stored count 3 and a representation of exactly 37 bytes.  The
  representation has 30 bytes, so the statement fails.
\<close>

theorem s3_batch_size_not_37:
  "\<not> (Count s3_batch = 3 \<and> length s3_batch = 37)"
  by (simp add: s3_batch_bytes)

text \<open>
  C3, amended: the batch built by put(k1, v1), delete(k2), put(k3, v3) on a fresh
  batch has the stored count 3 and a representation of exactly 30 bytes: the header
  of 12, then 7 bytes for each put (tag, length 2, key, length 2, value) and 4 for
  the delete (tag, length 2, key).
\<close>

theorem s3_batch_count_and_size:
  "Count s3_batch = 3 \<and> length s3_batch = 30"
  by (simp add: s3_batch_bytes Count_def DecodeFixed32_bytes)



section \<open>util/comparator.cc\<close>

text \<open>
  Modelled from the spec: \<open>Slice::compare\<close> is an inline function of
  include/leveldb/slice.h, not part of the sources at hand.  Section 4.3 fixes the
  order as bytewise lexicographic: the bytes are compared as unsigned values over the
  common length (\<open>memcmp\<close>), and on a tie the shorter slice is the smaller.  The
  result is negative, zero or positive.
\<close>

fun memcmp :: "bytes \<Rightarrow> bytes \<Rightarrow> int" where
  "memcmp (a # as) (b # bs) =
     (if a < b then - 1 else if b < a then 1 else memcmp as bs)"
| "memcmp _ _ = 0"

definition Slice_compare :: "bytes \<Rightarrow> bytes \<Rightarrow> int" where
  "Slice_compare a b =
     (let r = memcmp a b in
      if r = 0 then
        (if length a < length b then - 1 else if length a > length b then 1 else r)
      else r)"

text \<open>\<open>BytewiseComparatorImpl::Compare\<close>.\<close>

definition Compare :: "bytes \<Rightarrow> bytes \<Rightarrow> int" where
  "Compare a b = Slice_compare a b"

text \<open>
  \<open>BytewiseComparatorImpl::FindShortestSeparator\<close>.  The \<open>while\<close> loop that
  advances \<open>diff_index\<close> is \<open>diff_loop\<close>.  In the test \<open>diff_byte + 1 < limit[diff_index]\<close>
  both sides are promoted to \<open>int\<close>, so the sum does not wrap; the increment
  \<open>(*start)[diff_index]++\<close> is on a byte.  The function returns the new value of
  \<open>*start\<close>.
\<close>

function diff_loop :: "bytes \<Rightarrow> bytes \<Rightarrow> nat \<Rightarrow> nat \<Rightarrow> nat" where
  "diff_loop start limit min_length diff_index =
     (if diff_index < min_length \<and> start ! diff_index = limit ! diff_index
      then diff_loop start limit min_length (diff_index + 1)
      else diff_index)"
  by pat_completeness auto
termination
  by (relation "measure (\<lambda>(start, limit, min_length, diff_index). min_length - diff_index)") auto

definition FindShortestSeparator :: "bytes \<Rightarrow> bytes \<Rightarrow> bytes" where
  "FindShortestSeparator start limit =
     (let min_length = min (length start) (length limit);
          diff_index = diff_loop start limit min_length 0
      in if diff_index \<ge> min_length then start
         else
           let diff_byte = start ! diff_index in
           if diff_byte < 0xff \<and> uint diff_byte + 1 < uint (limit ! diff_index)
           then take (diff_index + 1) (start[diff_index := start ! diff_index + 1])
           else start)"

text \<open>
  The first index at which two slices differ, said without the loop: the length of
  their longest common prefix.
\<close>

definition common_prefix_len :: "bytes \<Rightarrow> bytes \<Rightarrow> nat" where
  "common_prefix_len a b = length (takeWhile (\<lambda>(x, y). x = y) (zip a b))"

declare diff_loop.simps [simp del]

lemma diff_loop_common:
  "min_length = min (length start) (length limit) \<Longrightarrow> i \<le> min_length \<Longrightarrow>
   diff_loop start limit min_length i = i + common_prefix_len (drop i start) (drop i limit)"
proof (induction start limit min_length i rule: diff_loop.induct)
  case (1 start limit min_length i)
  show ?case
  proof (cases "i < min_length \<and> start ! i = limit ! i")
    case True
    then have il: "i < length start" "i < length limit" using 1(2) by auto
    have "diff_loop start limit min_length i = diff_loop start limit min_length (i + 1)"
      using True by (subst diff_loop.simps) simp
    also have "\<dots> = (i + 1) + common_prefix_len (drop (i + 1) start) (drop (i + 1) limit)"
      using 1 True by simp
    also have "\<dots> = i + common_prefix_len (drop i start) (drop i limit)"
      using il True
      by (simp add: common_prefix_len_def Cons_nth_drop_Suc [symmetric])
    finally show ?thesis .
  next
    case False
    have d: "diff_loop start limit min_length i = i"
      using False by (subst diff_loop.simps) auto
    show ?thesis
    proof (cases "i < min_length")
      case True
      then have il: "i < length start" "i < length limit" using 1(2) by auto
      with False True show ?thesis
        by (simp add: d common_prefix_len_def Cons_nth_drop_Suc [symmetric])
    next
      case False
      then have "drop i start = [] \<or> drop i limit = []" using 1(2,3) by auto
      then show ?thesis by (auto simp: d common_prefix_len_def)
    qed
  qed
qed

lemma diff_index_common:
  "diff_loop start limit (min (length start) (length limit)) 0 = common_prefix_len start limit"
  using diff_loop_common [of "min (length start) (length limit)" start limit 0] by simp


lemma FindShortestSeparator_alt:
  "FindShortestSeparator start limit =
     (let i = common_prefix_len start limit in
      if i \<ge> min (length start) (length limit) then start
      else if start ! i < 0xff \<and> uint (start ! i) + 1 < uint (limit ! i)
           then take (i + 1) (start[i := start ! i + 1])
           else start)"
  by (simp add: FindShortestSeparator_def diff_index_common Let_def)

lemma common_prefix_len_simps [simp]:
  "common_prefix_len [] l = 0"
  "common_prefix_len s [] = 0"
  "common_prefix_len (a # as) (b # bs) = (if a = b then Suc (common_prefix_len as bs) else 0)"
  by (simp_all add: common_prefix_len_def)

lemma common_prefix_len_le:
  "common_prefix_len s l \<le> min (length s) (length l)"
  unfolding common_prefix_len_def
  by (metis length_takeWhile_le length_zip)

lemma FSS_Nil [simp]: "FindShortestSeparator [] limit = []"
  by (simp add: FindShortestSeparator_alt)

lemma FSS_Nil2 [simp]: "FindShortestSeparator start [] = start"
  by (simp add: FindShortestSeparator_alt)

lemma FSS_Cons_eq:
  "FindShortestSeparator (a # as) (a # bs) = a # FindShortestSeparator as bs"
  by (simp add: FindShortestSeparator_alt Let_def)

lemma FSS_Cons_neq:
  "a \<noteq> b \<Longrightarrow> FindShortestSeparator (a # as) (b # bs) =
     (if a < 0xff \<and> uint a + 1 < uint b then [a + 1] else a # as)"
  by (simp add: FindShortestSeparator_alt Let_def)

lemma memcmp_refl [simp]: "memcmp x x = 0"
  by (induction x) auto

lemma Slice_compare_refl [simp]: "Slice_compare x x = 0"
  by (simp add: Slice_compare_def)

lemma Slice_compare_Cons_eq [simp]:
  "Slice_compare (a # as) (a # bs) = Slice_compare as bs"
  by (simp add: Slice_compare_def Let_def)

lemma Slice_compare_Cons_less:
  "a < b \<Longrightarrow> Slice_compare (a # as) (b # bs) = - 1"
  by (simp add: Slice_compare_def)

lemma Slice_compare_Cons_greater:
  "b < a \<Longrightarrow> Slice_compare (a # as) (b # bs) = 1"
  by (auto simp add: Slice_compare_def)

lemma Slice_compare_Nil2: "Slice_compare s [] \<ge> 0"
  by (cases s) (auto simp add: Slice_compare_def)

lemma byte_succ_uint: "(a::byte) < 0xff \<Longrightarrow> uint (a + 1) = uint a + 1"
proof -
  assume "a < 0xff"
  then have "uint a < 255" by (simp add: word_less_def)
  moreover have "uint a \<ge> 0" by simp
  ultimately have "(uint a + 1) mod 256 = uint a + 1" by simp
  then show ?thesis by (simp add: uint_word_ariths)
qed

lemma byte_succ_less: "(a::byte) < 0xff \<Longrightarrow> a < a + 1"
  by (simp add: word_less_def byte_succ_uint)

lemma FSS_order:
  "Slice_compare start limit < 0 \<Longrightarrow>
   length (FindShortestSeparator start limit) \<le> length start \<and>
   Slice_compare start (FindShortestSeparator start limit) \<le> 0 \<and>
   Slice_compare (FindShortestSeparator start limit) limit < 0"
proof (induction start arbitrary: limit)
  case Nil
  then show ?case by simp
next
  case (Cons a as)
  show ?case
  proof (cases limit)
    case Nil
    with Cons.prems Slice_compare_Nil2 [of "a # as"] show ?thesis by simp
  next
    case (Cons b bs)
    show ?thesis
    proof (cases "a = b")
      case True
      with Cons Cons.prems Cons.IH [of bs] show ?thesis
        by (simp add: FSS_Cons_eq)
    next
      case False
      have ab: "a < b"
      proof (rule ccontr)
        assume "\<not> a < b"
        with False have "b < a" by auto
        then have "Slice_compare (a # as) (b # bs) = 1" by (rule Slice_compare_Cons_greater)
        with Cons.prems Cons show False by simp
      qed
      show ?thesis
      proof (cases "a < 0xff \<and> uint a + 1 < uint b")
        case True
        then have "a < a + 1" by (simp add: byte_succ_less)
        moreover have "a + 1 < b" using True by (simp add: word_less_def byte_succ_uint)
        ultimately show ?thesis
          using False True Cons
          by (simp add: FSS_Cons_neq Slice_compare_Cons_less)
      next
        case nt: False
        then have "FindShortestSeparator (a # as) (b # bs) = a # as"
          using False by (simp add: FSS_Cons_neq)
        then show ?thesis using Cons Cons.prems by simp
      qed
    qed
  qed
qed


lemma common_prefix_nth_less:
  "Slice_compare s l < 0 \<Longrightarrow> common_prefix_len s l < min (length s) (length l) \<Longrightarrow>
   s ! common_prefix_len s l < l ! common_prefix_len s l"
proof (induction s arbitrary: l)
  case Nil
  then show ?case by simp
next
  case (Cons a as)
  then obtain b bs where l: "l = b # bs" by (cases l) auto
  show ?case
  proof (cases "a = b")
    case True
    with Cons l show ?thesis by simp
  next
    case False
    have "a < b"
    proof (rule ccontr)
      assume "\<not> a < b"
      with False have "b < a" by auto
      then have "Slice_compare (a # as) (b # bs) = 1" by (rule Slice_compare_Cons_greater)
      with Cons.prems l show False by simp
    qed
    with False l show ?thesis by simp
  qed
qed

lemma take_update_last:
  "i < length xs \<Longrightarrow> take (i + 1) (xs[i := x]) = take i xs @ [x]"
  by (simp add: take_Suc_conv_app_nth)

lemma take_update_neq:
  "i < length xs \<Longrightarrow> x \<noteq> xs ! i \<Longrightarrow> take (i + 1) (xs[i := x]) \<noteq> xs"
  by (metis nth_list_update_eq nth_take less_add_one)

text \<open>
  C6.  For byte strings \<open>start < limit\<close> in bytewise order, the new value of
  \<open>start\<close> is no longer than the old one and lies between \<open>start\<close> (inclusive)
  and \<open>limit\<close> (exclusive).  With \<open>i\<close> the first differing index, \<open>start\<close>
  is changed exactly when \<open>i\<close> is inside both strings and \<open>start[i] + 1\<close> stays
  below \<open>limit[i]\<close>; the change is to increment that byte and cut after it;
  otherwise \<open>start\<close> is left as it is.
\<close>

theorem FindShortestSeparator_spec:
  assumes "Compare start limit < 0"
  shows "let new_start = FindShortestSeparator start limit;
             i = common_prefix_len start limit
         in length new_start \<le> length start \<and>
            Compare start new_start \<le> 0 \<and> Compare new_start limit < 0 \<and>
            (new_start \<noteq> start \<longleftrightarrow>
               i < min (length start) (length limit) \<and> uint (start ! i) + 1 < uint (limit ! i)) \<and>
            (new_start \<noteq> start \<longrightarrow> new_start = take i start @ [start ! i + 1])"
proof -
  define i where "i = common_prefix_len start limit"
  define new_start where "new_start = FindShortestSeparator start limit"
  have lt: "Slice_compare start limit < 0" using assms by (simp add: Compare_def)
  have ord: "length new_start \<le> length start \<and>
      Compare start new_start \<le> 0 \<and> Compare new_start limit < 0"
    using FSS_order [OF lt] by (simp add: new_start_def Compare_def)
  have alt: "new_start =
     (if i \<ge> min (length start) (length limit) then start
      else if start ! i < 0xff \<and> uint (start ! i) + 1 < uint (limit ! i)
           then take (i + 1) (start[i := start ! i + 1])
           else start)"
    by (simp add: new_start_def i_def FindShortestSeparator_alt Let_def)
  have iff: "new_start \<noteq> start \<longleftrightarrow>
               i < min (length start) (length limit) \<and> uint (start ! i) + 1 < uint (limit ! i)"
  proof (cases "i < min (length start) (length limit)")
    case False
    then have "min (length start) (length limit) \<le> i" by (simp only: not_less)
    then have "new_start = start" by (simp only: alt if_True)
    with False show ?thesis by blast
  next
    case True
    then have less: "start ! i < limit ! i"
      using common_prefix_nth_less [OF lt] by (simp add: i_def)
    have "uint (limit ! i) < 2 ^ LENGTH(8)" by (rule uint_bounded)
    then have "limit ! i \<le> 0xff" by (simp add: word_le_def)
    with less have ff: "start ! i < 0xff" by simp
    have neq: "start ! i + 1 \<noteq> start ! i" by simp
    show ?thesis
      using True ff take_update_neq [of i start "start ! i + 1"] neq
      by (auto simp: alt)
  qed
  have upd: "new_start \<noteq> start \<longrightarrow> new_start = take i start @ [start ! i + 1]"
    using take_update_last [of i start "start ! i + 1"]
    by (auto simp: alt split: if_splits)
  show ?thesis
    using ord iff upd by (simp add: Let_def i_def [symmetric] new_start_def [symmetric])
qed


theorem FindShortestSeparator_spec_witness:
  "Compare [0x61, 0x62, 0x63] [0x61, 0x64] < 0 \<and>
   (let new_start = FindShortestSeparator [0x61, 0x62, 0x63] [0x61, 0x64];
        i = common_prefix_len [0x61, 0x62, 0x63] [0x61, 0x64]
    in length new_start \<le> length [0x61, 0x62, 0x63 :: byte] \<and>
       Compare [0x61, 0x62, 0x63] new_start \<le> 0 \<and> Compare new_start [0x61, 0x64] < 0 \<and>
       (new_start \<noteq> [0x61, 0x62, 0x63] \<longleftrightarrow>
          i < min (length [0x61, 0x62, 0x63 :: byte]) (length [0x61, 0x64 :: byte]) \<and>
          uint ([0x61, 0x62, 0x63 :: byte] ! i) + 1 < uint ([0x61, 0x64 :: byte] ! i)) \<and>
       (new_start \<noteq> [0x61, 0x62, 0x63] \<longrightarrow>
          new_start = take i [0x61, 0x62, 0x63] @ [[0x61, 0x62, 0x63] ! i + 1]))"
proof -
  have h: "Compare [0x61, 0x62, 0x63] [0x61, 0x64] < 0"
    by (simp add: Compare_def Slice_compare_def)
  show ?thesis
    using h FindShortestSeparator_spec [OF h] by blast
qed

section \<open>db/log_format.h and db/log_reader.cc\<close>

text \<open>
  A \<open>Status\<close> is OK or an error of some kind with its message; the reader meets
  the two kinds below.
\<close>

datatype Status = OK | Corruption string | IOError string

text \<open>
  The record types of log_format.h, and the two extra codes of the reader's
  anonymous enum.  \<open>ReadPhysicalRecord\<close> returns an \<open>unsigned int\<close>, so all of
  them are 32-bit words.
\<close>

definition kZeroType :: u32 where "kZeroType = 0"
definition kFullType :: u32 where "kFullType = 1"
definition kFirstType :: u32 where "kFirstType = 2"
definition kMiddleType :: u32 where "kMiddleType = 3"
definition kLastType :: u32 where "kLastType = 4"
definition kMaxRecordType :: u32 where "kMaxRecordType = kLastType"
definition kEof :: u32 where "kEof = kMaxRecordType + 1"
definition kBadRecord :: u32 where "kBadRecord = kMaxRecordType + 2"

definition kBlockSize :: nat where "kBlockSize = 32768"
definition kHeaderSize :: nat where "kHeaderSize = 4 + 2 + 1"

text \<open>
  The \<open>SequentialFile\<close> the reader consumes is an external collaborator (section 6:
  \<open>read(n)\<close> returns a partial read at the end of the file, \<open>skip(n)\<close> moves
  forward).  The model is the sequence of bytes not yet read, and a flag for a device
  on which every operation fails with an I/O error.
\<close>

record SequentialFile =
  unread :: bytes
  failing :: bool

definition file_Read :: "SequentialFile \<Rightarrow> nat \<Rightarrow> Status \<times> bytes \<times> SequentialFile" where
  "file_Read f n =
     (if failing f then (IOError ''read'', [], f)
      else (OK, take n (unread f), f\<lparr>unread := drop n (unread f)\<rparr>))"

definition file_Skip :: "SequentialFile \<Rightarrow> u64 \<Rightarrow> Status \<times> SequentialFile" where
  "file_Skip f n =
     (if failing f then (IOError ''skip'', f)
      else (OK, f\<lparr>unread := drop (unat n) (unread f)\<rparr>))"

text \<open>
  Modelled from the spec: \<open>crc32c::Mask\<close> and \<open>crc32c::Unmask\<close> are inline
  functions of util/crc32c.h, not part of the sources at hand.  Section 6 gives the
  mask as \<open>rot32(crc, 15) + 0xa282ead8\<close>; \<open>Unmask\<close> is its inverse.  The checksum
  function \<open>crc32c::Value\<close> itself is a parameter \<open>crc\<close> of the reader's
  functions.
\<close>

definition kMaskDelta :: u32 where "kMaskDelta = 0xa282ead8"

definition Mask :: "u32 \<Rightarrow> u32" where
  "Mask crc = (drop_bit 15 crc OR push_bit 17 crc) + kMaskDelta"

definition Unmask :: "u32 \<Rightarrow> u32" where
  "Unmask masked_crc =
     (let rot = masked_crc - kMaskDelta in drop_bit 17 rot OR push_bit 15 rot)"

text \<open>
  The state of a \<open>log::Reader\<close>.  The fields keep the source's names without the
  trailing underscore (\<open>the_file\<close> for \<open>file_\<close>).  \<open>reporter\<close> says whether
  \<open>reporter_\<close> is non-null, and \<open>reported\<close> collects the calls
  \<open>reporter_->Corruption(bytes, status)\<close> in order.  \<open>backing_store_\<close> is the
  memory behind \<open>buffer\<close> and needs no field of its own.
\<close>

record Reader =
  the_file :: SequentialFile
  reporter :: bool
  reported :: "(u64 \<times> Status) list"
  checksum :: bool
  buffer :: bytes
  eof :: bool
  last_record_offset :: u64
  end_of_buffer_offset :: u64
  initial_offset :: u64
  resyncing :: bool

definition new_Reader :: "SequentialFile \<Rightarrow> bool \<Rightarrow> bool \<Rightarrow> u64 \<Rightarrow> Reader" where
  "new_Reader f rep cs init =
     \<lparr>the_file = f, reporter = rep, reported = [], checksum = cs,
      buffer = [], eof = False, last_record_offset = 0, end_of_buffer_offset = 0,
      initial_offset = init, resyncing = (init > 0)\<rparr>"

text \<open>
  \<open>ReportDrop\<close>: the subtraction is on \<open>uint64_t\<close> and wraps, as the word
  subtraction does.
\<close>

definition ReportDrop :: "Reader \<Rightarrow> u64 \<Rightarrow> Status \<Rightarrow> Reader" where
  "ReportDrop r bytes reason =
     (if reporter r \<and>
         end_of_buffer_offset r - of_nat (length (buffer r)) - bytes \<ge> initial_offset r
      then r\<lparr>reported := reported r @ [(bytes, reason)]\<rparr>
      else r)"

definition ReportCorruption :: "Reader \<Rightarrow> u64 \<Rightarrow> string \<Rightarrow> Reader" where
  "ReportCorruption r bytes reason = ReportDrop r bytes (Corruption reason)"

text \<open>
  \<open>SkipToInitialBlock\<close> returns the source's result and the new state.
\<close>

definition SkipToInitialBlock :: "Reader \<Rightarrow> bool \<times> Reader" where
  "SkipToInitialBlock r =
     (let offset_in_block = initial_offset r mod of_nat kBlockSize;
          block_start_location = initial_offset r - offset_in_block;
          (offset_in_block, block_start_location) =
            (if offset_in_block > of_nat kBlockSize - 6
             then (0, block_start_location + of_nat kBlockSize)
             else (offset_in_block, block_start_location));
          r = r\<lparr>end_of_buffer_offset := block_start_location\<rparr>
      in if block_start_location > 0 then
           (let (skip_status, f) = file_Skip (the_file r) block_start_location;
                r = r\<lparr>the_file := f\<rparr>
            in if skip_status \<noteq> OK
               then (False, ReportDrop r block_start_location skip_status)
               else (True, r))
         else (True, r))"

text \<open>
  \<open>ReadPhysicalRecord\<close> returns the record type, the new value of \<open>*result\<close>
  (left as it was on the paths that do not assign it) and the new state.  The
  \<open>while (true)\<close> loop repeats only after a read, which is the recursive call.
  \<open>header[6]\<close> is a \<open>char\<close>, which is signed on the platforms the repository
  builds for; its conversion to \<open>unsigned int\<close> extends the sign, which \<open>scast\<close>
  does.  The type bytes 0 to 127 are unaffected.
\<close>

function ReadPhysicalRecord ::
  "(bytes \<Rightarrow> u32) \<Rightarrow> Reader \<Rightarrow> bytes \<Rightarrow> u32 \<times> bytes \<times> Reader" where
  "ReadPhysicalRecord crc r result =
     (if length (buffer r) < kHeaderSize then
        (if \<not> eof r then
           (let (status, data, f) = file_Read (the_file r) kBlockSize;
                r = r\<lparr>buffer := data, the_file := f,
                      end_of_buffer_offset := end_of_buffer_offset r + of_nat (length data)\<rparr>
            in if status \<noteq> OK then
                 (let r = r\<lparr>buffer := []\<rparr>;
                      r = ReportDrop r (of_nat kBlockSize) status
                  in (kEof, result, r\<lparr>eof := True\<rparr>))
               else if length data < kBlockSize
               then ReadPhysicalRecord crc (r\<lparr>eof := True\<rparr>) result
               else ReadPhysicalRecord crc r result)
         else (kEof, result, r\<lparr>buffer := []\<rparr>))
      else
        (let header = buffer r;
             a = (ucast (header ! 4) :: u32) AND 0xff;
             b = (ucast (header ! 5) :: u32) AND 0xff;
             type = (scast (header ! 6) :: u32);
             len = a OR push_bit 8 b
         in if kHeaderSize + unat len > length (buffer r) then
              (let drop_size = length (buffer r);
                   r = r\<lparr>buffer := []\<rparr>
               in if \<not> eof r
                  then (kBadRecord, result, ReportCorruption r (of_nat drop_size) ''bad record length'')
                  else (kEof, result, r))
            else if type = kZeroType \<and> len = 0 then
              (kBadRecord, result, r\<lparr>buffer := []\<rparr>)
            else if checksum r \<and>
                    crc (take (1 + unat len) (drop 6 header)) \<noteq> Unmask (DecodeFixed32 header)
            then
              (let drop_size = length (buffer r);
                   r = r\<lparr>buffer := []\<rparr>
               in (kBadRecord, result, ReportCorruption r (of_nat drop_size) ''checksum mismatch''))
            else
              (let r = r\<lparr>buffer := drop (kHeaderSize + unat len) (buffer r)\<rparr>
               in if end_of_buffer_offset r - of_nat (length (buffer r)) - of_nat kHeaderSize
                       - ucast len < initial_offset r
                  then (kBadRecord, [], r)
                  else (type, take (unat len) (drop kHeaderSize header), r))))"
  by pat_completeness auto
termination
proof (relation "measure (\<lambda>(crc, r, result). if length (buffer r) < kHeaderSize \<and> \<not> eof r then 1 else 0)")
  show "wf (measure (\<lambda>(crc, r, result). if length (buffer r) < kHeaderSize \<and> \<not> eof r then 1 else (0::nat)))" by simp
qed (auto simp: kHeaderSize_def kBlockSize_def)


declare ReadPhysicalRecord.simps [simp del]

text \<open>
  The conversion \<open>%u\<close> of \<open>snprintf\<close>: the decimal digits of an unsigned number,
  without leading zeros.
\<close>

function decimal :: "nat \<Rightarrow> string" where
  "decimal n =
     (if n < 10 then [''0123456789'' ! n]
      else decimal (n div 10) @ [''0123456789'' ! (n mod 10)])"
  by pat_completeness auto
termination
  by (relation "measure (\<lambda>n. n)") auto

declare decimal.simps [simp del]

text \<open>
  One pass through the body of the \<open>while (true)\<close> loop of \<open>ReadRecord\<close>: it
  either returns (the result, \<open>*record\<close>, \<open>*scratch\<close> and the state) or goes
  round again with the local variables \<open>scratch\<close>, \<open>in_fragmented_record\<close>,
  \<open>prospective_record_offset\<close> and \<open>fragment\<close>.  The message for an unknown type
  is at most 30 characters long and fits the buffer of 40 that \<open>snprintf\<close> fills.
\<close>

datatype step =
  Return bool bytes bytes Reader
| Continue Reader bytes bool u64 bytes

definition ReadRecord_body ::
  "(bytes \<Rightarrow> u32) \<Rightarrow> Reader \<Rightarrow> bytes \<Rightarrow> bool \<Rightarrow> u64 \<Rightarrow> bytes \<Rightarrow> step" where
  "ReadRecord_body crc r scratch in_fragmented_record prospective_record_offset fragment =
     (let physical_record_offset = end_of_buffer_offset r - of_nat (length (buffer r));
          (record_type, fragment, r) = ReadPhysicalRecord crc r fragment
      in if resyncing r \<and> record_type = kMiddleType then
           Continue r scratch in_fragmented_record prospective_record_offset fragment
         else if resyncing r \<and> record_type = kLastType then
           Continue (r\<lparr>resyncing := False\<rparr>) scratch in_fragmented_record
             prospective_record_offset fragment
         else
           (let r = r\<lparr>resyncing := False\<rparr>
            in if record_type = kFullType then
                 (let r = (if in_fragmented_record \<and> scratch \<noteq> []
                           then ReportCorruption r (of_nat (length scratch))
                                  ''partial record without end(1)''
                           else r)
                  in Return True fragment [] (r\<lparr>last_record_offset := physical_record_offset\<rparr>))
               else if record_type = kFirstType then
                 (let r = (if in_fragmented_record \<and> scratch \<noteq> []
                           then ReportCorruption r (of_nat (length scratch))
                                  ''partial record without end(2)''
                           else r)
                  in Continue r fragment True physical_record_offset fragment)
               else if record_type = kMiddleType then
                 (if \<not> in_fragmented_record
                  then Continue (ReportCorruption r (of_nat (length fragment))
                                   ''missing start of fragmented record(1)'')
                         scratch in_fragmented_record prospective_record_offset fragment
                  else Continue r (scratch @ fragment) in_fragmented_record
                         prospective_record_offset fragment)
               else if record_type = kLastType then
                 (if \<not> in_fragmented_record
                  then Continue (ReportCorruption r (of_nat (length fragment))
                                   ''missing start of fragmented record(2)'')
                         scratch in_fragmented_record prospective_record_offset fragment
                  else Return True (scratch @ fragment) (scratch @ fragment)
                         (r\<lparr>last_record_offset := prospective_record_offset\<rparr>))
               else if record_type = kEof then
                 Return False [] (if in_fragmented_record then [] else scratch) r
               else if record_type = kBadRecord then
                 (if in_fragmented_record
                  then Continue (ReportCorruption r (of_nat (length scratch))
                                   ''error in middle of record'')
                         [] False prospective_record_offset fragment
                  else Continue r scratch in_fragmented_record prospective_record_offset fragment)
               else
                 Continue (ReportCorruption r
                             (of_nat (length fragment +
                                (if in_fragmented_record then length scratch else 0)))
                             (''unknown record type '' @ decimal (unat record_type)))
                   [] False prospective_record_offset fragment))"

text \<open>The bytes the reader has still to look at: a measure for the loop.\<close>

definition rsize :: "Reader \<Rightarrow> nat" where
  "rsize r = length (buffer r) + length (unread (the_file r))"

lemma ReportDrop_fields [simp]:
  "buffer (ReportDrop r n s) = buffer r"
  "the_file (ReportDrop r n s) = the_file r"
  "eof (ReportDrop r n s) = eof r"
  "resyncing (ReportDrop r n s) = resyncing r"
  "checksum (ReportDrop r n s) = checksum r"
  "reporter (ReportDrop r n s) = reporter r"
  "initial_offset (ReportDrop r n s) = initial_offset r"
  "end_of_buffer_offset (ReportDrop r n s) = end_of_buffer_offset r"
  "last_record_offset (ReportDrop r n s) = last_record_offset r"
  by (simp_all add: ReportDrop_def)

lemma ReportCorruption_fields [simp]:
  "buffer (ReportCorruption r n m) = buffer r"
  "the_file (ReportCorruption r n m) = the_file r"
  "eof (ReportCorruption r n m) = eof r"
  "resyncing (ReportCorruption r n m) = resyncing r"
  "checksum (ReportCorruption r n m) = checksum r"
  "reporter (ReportCorruption r n m) = reporter r"
  "initial_offset (ReportCorruption r n m) = initial_offset r"
  "end_of_buffer_offset (ReportCorruption r n m) = end_of_buffer_offset r"
  "last_record_offset (ReportCorruption r n m) = last_record_offset r"
  by (simp_all add: ReportCorruption_def)

lemma rsize_Report [simp]:
  "rsize (ReportDrop r n s) = rsize r"
  "rsize (ReportCorruption r n m) = rsize r"
  by (simp_all add: rsize_def)

lemma ReadPhysicalRecord_rsize:
  "ReadPhysicalRecord crc r res = (t, frag, r') \<Longrightarrow>
   rsize r' \<le> rsize r \<and> (t \<noteq> kEof \<longrightarrow> rsize r' < rsize r)"
proof (induction crc r res arbitrary: t frag r' rule: ReadPhysicalRecord.induct)
  case (1 crc r result)
  show ?case
  proof (cases "length (buffer r) < kHeaderSize")
    case short: True
    show ?thesis
    proof (cases "eof r")
      case True
      with short "1.prems" show ?thesis
        by (subst (asm) ReadPhysicalRecord.simps) (auto simp: rsize_def)
    next
      case False
      obtain status data f where rd: "file_Read (the_file r) kBlockSize = (status, data, f)"
        by (cases "file_Read (the_file r) kBlockSize") auto
      define r1 where "r1 = r\<lparr>buffer := data, the_file := f,
                      end_of_buffer_offset := end_of_buffer_offset r + of_nat (length data)\<rparr>"
      have sz: "rsize r1 \<le> rsize r"
        using rd by (auto simp: file_Read_def rsize_def r1_def split: if_splits)
      show ?thesis
      proof (cases "status = OK")
        case notok: False
        with short False rd "1.prems" have "t = kEof" "rsize r' = length (unread f)"
          by (subst (asm) ReadPhysicalRecord.simps; simp add: rsize_def; auto)+
        with sz show ?thesis by (simp add: rsize_def r1_def)
      next
        case ok: True
        show ?thesis
        proof (cases "length data < kBlockSize")
          case True
          have eq: "ReadPhysicalRecord crc r result = ReadPhysicalRecord crc (r1\<lparr>eof := True\<rparr>) result"
            using short False rd ok True
            by (subst ReadPhysicalRecord.simps) (simp add: r1_def)
          have "rsize r' \<le> rsize (r1\<lparr>eof := True\<rparr>) \<and> (t \<noteq> kEof \<longrightarrow> rsize r' < rsize (r1\<lparr>eof := True\<rparr>))"
            using "1.IH"(1) [OF short False refl rd [symmetric] refl r1_def _ True]
                  ok "1.prems" eq
            by simp
          with sz show ?thesis by (auto simp: rsize_def)
        next
          case nl: False
          have eq: "ReadPhysicalRecord crc r result = ReadPhysicalRecord crc r1 result"
            using short False rd ok nl
            by (subst ReadPhysicalRecord.simps) (simp add: r1_def)
          have "rsize r' \<le> rsize r1 \<and> (t \<noteq> kEof \<longrightarrow> rsize r' < rsize r1)"
            using "1.IH"(2) [OF short False refl rd [symmetric] refl r1_def _ nl]
                  ok "1.prems" eq
            by simp
          with sz show ?thesis by auto
        qed
      qed
    qed
  next
    case False
    with "1.prems" show ?thesis
      by (subst (asm) ReadPhysicalRecord.simps)
         (auto simp: rsize_def Let_def kHeaderSize_def split: if_splits)
  qed
qed


lemmas record_type_defs =
  kZeroType_def kFullType_def kFirstType_def kMiddleType_def kLastType_def
  kMaxRecordType_def kEof_def kBadRecord_def

lemma rsize_update [simp]:
  "rsize (r\<lparr>resyncing := b\<rparr>) = rsize r"
  "rsize (r\<lparr>last_record_offset := n\<rparr>) = rsize r"
  by (simp_all add: rsize_def)

lemma ReadRecord_body_Continue:
  assumes "ReadRecord_body crc r scratch in_frag prospective fragment =
             Continue r' scratch' in_frag' prospective' fragment'"
  shows "rsize r' < rsize r"
proof -
  obtain t frag r1 where rpr: "ReadPhysicalRecord crc r fragment = (t, frag, r1)"
    by (cases "ReadPhysicalRecord crc r fragment") auto
  from ReadPhysicalRecord_rsize [OF rpr]
  have le: "rsize r1 \<le> rsize r" and lt: "t \<noteq> kEof \<Longrightarrow> rsize r1 < rsize r" by auto
  have "t \<noteq> kEof \<and> rsize r' = rsize r1"
    using assms rpr
    by (auto simp: ReadRecord_body_def Let_def record_type_defs split: if_splits)
  with lt show ?thesis by simp
qed

text \<open>The loop of \<open>ReadRecord\<close>, from any state of its local variables.\<close>

function ReadRecord_loop ::
  "(bytes \<Rightarrow> u32) \<Rightarrow> Reader \<Rightarrow> bytes \<Rightarrow> bool \<Rightarrow> u64 \<Rightarrow> bytes
     \<Rightarrow> bool \<times> bytes \<times> bytes \<times> Reader" where
  "ReadRecord_loop crc r scratch in_fragmented_record prospective_record_offset fragment =
     (case ReadRecord_body crc r scratch in_fragmented_record prospective_record_offset fragment of
        Return ok record scratch r \<Rightarrow> (ok, record, scratch, r)
      | Continue r scratch in_fragmented_record prospective_record_offset fragment \<Rightarrow>
          ReadRecord_loop crc r scratch in_fragmented_record prospective_record_offset fragment)"
  by pat_completeness auto
termination
  by (relation "measure (\<lambda>(crc, r, scratch, in_frag, prospective, fragment). rsize r)")
     (auto dest: ReadRecord_body_Continue)

declare ReadRecord_loop.simps [simp del]

text \<open>
  \<open>ReadRecord\<close> takes the values of \<open>*record\<close> and \<open>*scratch\<close> at the call:
  they come back unchanged when the skip to the initial block fails.
\<close>

definition ReadRecord :: "(bytes \<Rightarrow> u32) \<Rightarrow> Reader \<Rightarrow> bytes \<Rightarrow> bytes
     \<Rightarrow> bool \<times> bytes \<times> bytes \<times> Reader" where
  "ReadRecord crc r record scratch =
     (if last_record_offset r < initial_offset r then
        (let (ok, r) = SkipToInitialBlock r
         in if \<not> ok then (False, record, scratch, r)
            else ReadRecord_loop crc r [] False 0 [])
      else ReadRecord_loop crc r [] False 0 [])"

definition LastRecordOffset :: "Reader \<Rightarrow> u64" where
  "LastRecordOffset r = last_record_offset r"

text \<open>
  Notions for stating the claims about the reader.  \<open>stored_length\<close> and
  \<open>record_type_of\<close> read the length and the type off a header the way
  \<open>ReadPhysicalRecord\<close> does; \<open>truncated_tail\<close> is a tail of the file that is
  a header cut short, or a header whose length runs past the bytes that are left.
  \<open>bad_length\<close>, \<open>zero_padding\<close>, \<open>crc_mismatch\<close> and \<open>unknown_type\<close>
  classify the record at the front of the buffer, and \<open>physical_record_offset\<close> is
  its offset in the file, computed as \<open>ReadRecord\<close> computes it.
\<close>

definition stored_length :: "bytes \<Rightarrow> nat" where
  "stored_length header =
     unat (((ucast (header ! 4) :: u32) AND 0xff) OR push_bit 8 ((ucast (header ! 5) :: u32) AND 0xff))"

definition truncated_tail :: "bytes \<Rightarrow> bool" where
  "truncated_tail b \<longleftrightarrow> length b < kHeaderSize \<or> kHeaderSize + stored_length b > length b"

definition record_type_of :: "bytes \<Rightarrow> u32" where
  "record_type_of header = scast (header ! 6)"

definition bad_length :: "Reader \<Rightarrow> bool" where
  "bad_length r \<longleftrightarrow> kHeaderSize + stored_length (buffer r) > length (buffer r)"

definition zero_padding :: "Reader \<Rightarrow> bool" where
  "zero_padding r \<longleftrightarrow> record_type_of (buffer r) = kZeroType \<and> stored_length (buffer r) = 0"

definition crc_mismatch :: "(bytes \<Rightarrow> u32) \<Rightarrow> Reader \<Rightarrow> bool" where
  "crc_mismatch crc r \<longleftrightarrow>
     checksum r \<and>
     crc (take (1 + stored_length (buffer r)) (drop 6 (buffer r))) \<noteq> Unmask (DecodeFixed32 (buffer r))"

definition unknown_type :: "Reader \<Rightarrow> bool" where
  "unknown_type r \<longleftrightarrow>
     record_type_of (buffer r) \<notin> {kFullType, kFirstType, kMiddleType, kLastType, kEof, kBadRecord}"

definition physical_record_offset :: "Reader \<Rightarrow> u64" where
  "physical_record_offset r = end_of_buffer_offset r - of_nat (length (buffer r))"

fun step_reader :: "step \<Rightarrow> Reader" where
  "step_reader (Return ok record scratch r) = r"
| "step_reader (Continue r scratch in_frag p fragment) = r"

text \<open>
  Two small files for concrete runs: one FULL record and one FIRST record, each with
  the one-byte payload \<open>a\<close>; and a checksum function for readers that do not verify
  checksums.
\<close>

definition full_record_file :: SequentialFile where
  "full_record_file = \<lparr>unread = [0, 0, 0, 0, 1, 0, 1, 0x61], failing = False\<rparr>"

definition first_record_file :: SequentialFile where
  "first_record_file = \<lparr>unread = [0, 0, 0, 0, 1, 0, 2, 0x61], failing = False\<rparr>"

definition no_crc :: "bytes \<Rightarrow> u32" where
  "no_crc data = 0"

text \<open>
  Files with a bad tail: a block of exactly 32768 bytes holding one header whose
  length 65535 runs past the end of the file; a file of three bytes; a file whose
  only header announces five bytes where one is left.  \<open>tail_reader\<close> is a reader
  that has consumed a first block of 32768 bytes and has \<open>buf\<close> left in its buffer.
\<close>

definition overrun_block_file :: SequentialFile where
  "overrun_block_file =
     \<lparr>unread = [0, 0, 0, 0, 0xff, 0xff, 1] @ replicate 32761 0, failing = False\<rparr>"

definition short_header_file :: SequentialFile where
  "short_header_file = \<lparr>unread = [0, 0, 0], failing = False\<rparr>"

definition overrun_tail_file :: SequentialFile where
  "overrun_tail_file = \<lparr>unread = [0, 0, 0, 0, 5, 0, 1, 0x61], failing = False\<rparr>"

definition tail_reader :: "bytes \<Rightarrow> bool \<Rightarrow> bool \<Rightarrow> u64 \<Rightarrow> Reader" where
  "tail_reader buf cs e init =
     \<lparr>the_file = \<lparr>unread = [], failing = False\<rparr>, reporter = True, reported = [],
      checksum = cs, buffer = buf, eof = e, last_record_offset = 0,
      end_of_buffer_offset = 32768, initial_offset = init, resyncing = False\<rparr>"

text \<open>
  Files of two records with one-byte payloads \<open>a\<close> and \<open>b\<close>: the second record is
  FULL, and the first has the type byte \<open>t\<close>.
\<close>

definition typed_record_file :: "byte \<Rightarrow> SequentialFile" where
  "typed_record_file t =
     \<lparr>unread = [0, 0, 0, 0, 1, 0, t, 0x61, 0, 0, 0, 0, 1, 0, 1, 0x62], failing = False\<rparr>"

lemma ReportDrop_reported_cases:
  "reported (ReportDrop r n s) = reported r \<or> reported (ReportDrop r n s) = reported r @ [(n, s)]"
  by (simp add: ReportDrop_def)

lemma ReadPhysicalRecord_quiet:
  "ReadPhysicalRecord crc r res = (t, frag, r') \<Longrightarrow> t \<noteq> kEof \<Longrightarrow> t \<noteq> kBadRecord \<Longrightarrow>
   reported r' = reported r"
proof (induction crc r res arbitrary: t frag r' rule: ReadPhysicalRecord.induct)
  case (1 crc r result)
  show ?case
  proof (cases "length (buffer r) < kHeaderSize")
    case short: True
    show ?thesis
    proof (cases "eof r")
      case True
      with short "1.prems" show ?thesis
        by (subst (asm) ReadPhysicalRecord.simps) auto
    next
      case False
      obtain status data f where rd: "file_Read (the_file r) kBlockSize = (status, data, f)"
        by (cases "file_Read (the_file r) kBlockSize") auto
      define r1 where "r1 = r\<lparr>buffer := data, the_file := f,
                      end_of_buffer_offset := end_of_buffer_offset r + of_nat (length data)\<rparr>"
      have rep: "reported r1 = reported r" by (simp add: r1_def)
      show ?thesis
      proof (cases "status = OK")
        case notok: False
        with short False rd "1.prems" have "t = kEof"
          by (subst (asm) ReadPhysicalRecord.simps) auto
        with "1.prems" show ?thesis by simp
      next
        case ok: True
        show ?thesis
        proof (cases "length data < kBlockSize")
          case True
          have eq: "ReadPhysicalRecord crc r result = ReadPhysicalRecord crc (r1\<lparr>eof := True\<rparr>) result"
            using short False rd ok True
            by (subst ReadPhysicalRecord.simps) (simp add: r1_def)
          have "reported r' = reported (r1\<lparr>eof := True\<rparr>)"
            using "1.IH"(1) [OF short False refl rd [symmetric] refl r1_def _ True]
                  ok "1.prems" eq
            by simp
          with rep show ?thesis by simp
        next
          case nl: False
          have eq: "ReadPhysicalRecord crc r result = ReadPhysicalRecord crc r1 result"
            using short False rd ok nl
            by (subst ReadPhysicalRecord.simps) (simp add: r1_def)
          have "reported r' = reported r1"
            using "1.IH"(2) [OF short False refl rd [symmetric] refl r1_def _ nl]
                  ok "1.prems" eq
            by simp
          with rep show ?thesis by simp
        qed
      qed
    qed
  next
    case False
    with "1.prems" show ?thesis
      by (subst (asm) ReadPhysicalRecord.simps)
         (auto simp: Let_def split: if_splits)
  qed
qed

lemma RPR_full_record:
  "ReadPhysicalRecord crc (new_Reader full_record_file True False 0) [] =
     (kFullType, [0x61],
      (new_Reader full_record_file True False 0)
        \<lparr>the_file := \<lparr>unread = [], failing = False\<rparr>, buffer := [], eof := True,
         end_of_buffer_offset := 8\<rparr>)"
  apply (subst ReadPhysicalRecord.simps)
  apply (simp add: new_Reader_def full_record_file_def file_Read_def kHeaderSize_def kBlockSize_def)
  apply (subst ReadPhysicalRecord.simps)
  apply (simp add: kHeaderSize_def record_type_defs)
  done

lemma RPR_first_record:
  "ReadPhysicalRecord crc (new_Reader first_record_file True False 0) [] =
     (kFirstType, [0x61],
      (new_Reader first_record_file True False 0)
        \<lparr>the_file := \<lparr>unread = [], failing = False\<rparr>, buffer := [], eof := True,
         end_of_buffer_offset := 8\<rparr>)"
  apply (subst ReadPhysicalRecord.simps)
  apply (simp add: new_Reader_def first_record_file_def file_Read_def kHeaderSize_def kBlockSize_def)
  apply (subst ReadPhysicalRecord.simps)
  apply (simp add: kHeaderSize_def record_type_defs)
  done

lemma RPR_tail_at_eof:
  assumes "eof r" and "truncated_tail (buffer r)"
  shows "ReadPhysicalRecord crc r res = (kEof, res, r\<lparr>buffer := []\<rparr>)"
  using assms
  by (subst ReadPhysicalRecord.simps)
     (auto simp: truncated_tail_def stored_length_def Let_def)

lemma RPR_tail_unread:
  assumes "\<not> eof r" and "length (buffer r) < kHeaderSize" and "\<not> failing (the_file r)"
    and "length (unread (the_file r)) < kBlockSize" and "truncated_tail (unread (the_file r))"
  shows "ReadPhysicalRecord crc r res =
           (kEof, res,
            r\<lparr>buffer := [], the_file := (the_file r)\<lparr>unread := []\<rparr>, eof := True,
              end_of_buffer_offset :=
                end_of_buffer_offset r + of_nat (length (unread (the_file r)))\<rparr>)"
proof -
  define r1 where "r1 = r\<lparr>buffer := unread (the_file r),
      the_file := (the_file r)\<lparr>unread := []\<rparr>,
      end_of_buffer_offset := end_of_buffer_offset r + of_nat (length (unread (the_file r))),
      eof := True\<rparr>"
  have "ReadPhysicalRecord crc r res = ReadPhysicalRecord crc r1 res"
    using assms by (subst ReadPhysicalRecord.simps) (simp add: file_Read_def r1_def)
  also have "\<dots> = (kEof, res, r1\<lparr>buffer := []\<rparr>)"
    using assms by (intro RPR_tail_at_eof) (simp_all add: r1_def)
  finally show ?thesis by (simp add: r1_def)
qed

lemma RPR_overrun_block:
  "ReadPhysicalRecord crc (new_Reader overrun_block_file True False 0) [] =
     (kBadRecord, [],
      (new_Reader overrun_block_file True False 0)
        \<lparr>the_file := \<lparr>unread = [], failing = False\<rparr>, buffer := [],
         end_of_buffer_offset := 32768,
         reported := [(32768, Corruption ''bad record length'')]\<rparr>)"
  apply (subst ReadPhysicalRecord.simps)
  apply (simp add: new_Reader_def overrun_block_file_def file_Read_def kHeaderSize_def kBlockSize_def)
  apply (subst ReadPhysicalRecord.simps)
  apply (simp add: kHeaderSize_def record_type_defs ReportCorruption_def ReportDrop_def)
  done

lemma RPR_after_overrun_block:
  "ReadPhysicalRecord crc
     ((new_Reader overrun_block_file True False 0)
        \<lparr>the_file := \<lparr>unread = [], failing = False\<rparr>, buffer := [],
         end_of_buffer_offset := 32768,
         reported := [(32768, Corruption ''bad record length'')],
         resyncing := False\<rparr>) [] =
     (kEof, [],
      (new_Reader overrun_block_file True False 0)
        \<lparr>the_file := \<lparr>unread = [], failing = False\<rparr>, buffer := [],
         end_of_buffer_offset := 32768,
         reported := [(32768, Corruption ''bad record length'')],
         resyncing := False, eof := True\<rparr>)"
  apply (subst ReadPhysicalRecord.simps)
  apply (simp add: new_Reader_def file_Read_def kHeaderSize_def kBlockSize_def)
  apply (subst ReadPhysicalRecord.simps)
  apply (simp add: kHeaderSize_def)
  done

lemma ReadRecord_overrun_block:
  "ReadRecord no_crc (new_Reader overrun_block_file True False 0) [] [] =
     (False, [], [],
      (new_Reader overrun_block_file True False 0)
        \<lparr>the_file := \<lparr>unread = [], failing = False\<rparr>, buffer := [],
         end_of_buffer_offset := 32768,
         reported := [(32768, Corruption ''bad record length'')],
         resyncing := False, eof := True\<rparr>)"
proof -
  let ?r0 = "new_Reader overrun_block_file True False 0"
  let ?r1 = "?r0\<lparr>the_file := \<lparr>unread = [], failing = False\<rparr>, buffer := [],
         end_of_buffer_offset := 32768,
         reported := [(32768, Corruption ''bad record length'')]\<rparr>"
  have s1: "ReadRecord_body no_crc ?r0 [] False 0 [] =
              Continue (?r1\<lparr>resyncing := False\<rparr>) [] False 0 []"
    by (simp add: ReadRecord_body_def RPR_overrun_block Let_def record_type_defs)
  have s2: "ReadRecord_body no_crc (?r1\<lparr>resyncing := False\<rparr>) [] False 0 [] =
              Return False [] [] (?r1\<lparr>resyncing := False, eof := True\<rparr>)"
    using RPR_after_overrun_block [of no_crc]
    by (simp add: ReadRecord_body_def Let_def record_type_defs)
  have "ReadRecord no_crc ?r0 [] [] = ReadRecord_loop no_crc ?r0 [] False 0 []"
    by (simp add: ReadRecord_def new_Reader_def)
  also have "\<dots> = ReadRecord_loop no_crc (?r1\<lparr>resyncing := False\<rparr>) [] False 0 []"
    by (subst ReadRecord_loop.simps) (simp add: s1)
  also have "\<dots> = (False, [], [], ?r1\<lparr>resyncing := False, eof := True\<rparr>)"
    by (subst ReadRecord_loop.simps) (simp add: s2)
  finally show ?thesis .
qed

lemma reported_ReportCorruption_cleared:
  "reporter r \<Longrightarrow>
   reported (ReportCorruption (r\<lparr>buffer := []\<rparr>) (of_nat (length (buffer r))) msg) =
     (if initial_offset r \<le> physical_record_offset r
      then reported r @ [(of_nat (length (buffer r)), Corruption msg)]
      else reported r)"
  by (simp add: ReportCorruption_def ReportDrop_def physical_record_offset_def)

lemma RPR_bad_length:
  assumes "kHeaderSize \<le> length (buffer r)" and "bad_length r"
  shows "ReadPhysicalRecord crc r res =
           (if \<not> eof r
            then (kBadRecord, res,
                  ReportCorruption (r\<lparr>buffer := []\<rparr>) (of_nat (length (buffer r)))
                    ''bad record length'')
            else (kEof, res, r\<lparr>buffer := []\<rparr>))"
  using assms
  by (subst ReadPhysicalRecord.simps)
     (simp add: bad_length_def stored_length_def Let_def)

lemma RPR_crc_mismatch:
  assumes "kHeaderSize \<le> length (buffer r)" and "\<not> bad_length r" and "\<not> zero_padding r"
    and "crc_mismatch crc r"
  shows "ReadPhysicalRecord crc r res =
           (kBadRecord, res,
            ReportCorruption (r\<lparr>buffer := []\<rparr>) (of_nat (length (buffer r)))
              ''checksum mismatch'')"
  using assms
  by (subst ReadPhysicalRecord.simps)
     (auto simp: bad_length_def stored_length_def zero_padding_def record_type_of_def
        crc_mismatch_def Let_def)

lemma unat_sub_of_nat:
  "n \<le> unat (e :: u64) \<Longrightarrow> unat (e - of_nat n) = unat e - n"
proof -
  assume le: "n \<le> unat e"
  from le have n: "unat (of_nat n :: u64) = n" by (rule le_unat_uoi)
  then have "(of_nat n :: u64) \<le> e" using le by (simp add: word_le_nat_alt)
  then show ?thesis using n by (simp add: unat_sub)
qed

lemma RPR_well_formed:
  assumes "kHeaderSize \<le> length (buffer r)" and "\<not> bad_length r" and "\<not> zero_padding r"
    and "\<not> crc_mismatch crc r"
  shows "ReadPhysicalRecord crc r res =
           (if physical_record_offset r < initial_offset r
            then (kBadRecord, [],
                  r\<lparr>buffer := drop (kHeaderSize + stored_length (buffer r)) (buffer r)\<rparr>)
            else (record_type_of (buffer r),
                  take (stored_length (buffer r)) (drop kHeaderSize (buffer r)),
                  r\<lparr>buffer := drop (kHeaderSize + stored_length (buffer r)) (buffer r)\<rparr>))"
proof -
  let ?len = "((ucast (buffer r ! 4) :: u32) AND 0xff) OR push_bit 8 ((ucast (buffer r ! 5) :: u32) AND 0xff)"
  have fits: "kHeaderSize + unat ?len \<le> length (buffer r)"
    using assms(2) by (simp add: bad_length_def stored_length_def)
  have uc: "(ucast ?len :: u64) = of_nat (unat ?len)"
    by (simp add: unsigned_of_nat [symmetric])
  have "end_of_buffer_offset r - of_nat (length (buffer r) - (kHeaderSize + unat ?len))
          - of_nat kHeaderSize - ucast ?len = physical_record_offset r"
    using fits by (simp add: physical_record_offset_def uc)
  then show ?thesis
    using assms
    by (subst ReadPhysicalRecord.simps)
       (auto simp: bad_length_def stored_length_def zero_padding_def record_type_of_def
          crc_mismatch_def Let_def)
qed


lemma unknown_type_step:
  assumes hdr: "kHeaderSize \<le> length (buffer r)"
    and pos: "length (buffer r) \<le> unat (end_of_buffer_offset r)"
    and inv: "in_frag \<longrightarrow>
                unat (initial_offset r) + length scratch \<le> unat (physical_record_offset r)"
    and ok: "\<not> bad_length r" "\<not> zero_padding r" "\<not> crc_mismatch crc r"
    and unk: "unknown_type r"
  shows "reported (step_reader (ReadRecord_body crc r scratch in_frag p fragment)) =
           (if reporter r \<and> initial_offset r \<le> physical_record_offset r
            then reported r @
                   [(of_nat (stored_length (buffer r) + (if in_frag then length scratch else 0)),
                     Corruption (''unknown record type '' @
                       decimal (unat (record_type_of (buffer r)))))]
            else reported r)"
proof (cases "physical_record_offset r < initial_offset r")
  case True
  then have nf: "\<not> in_frag" using inv by (auto simp: word_less_nat_alt)
  have "ReadPhysicalRecord crc r fragment =
          (kBadRecord, [], r\<lparr>buffer := drop (kHeaderSize + stored_length (buffer r)) (buffer r)\<rparr>)"
    using RPR_well_formed [OF hdr ok] True by simp
  moreover have "\<not> initial_offset r \<le> physical_record_offset r"
    using True by simp
  ultimately show ?thesis
    using nf by (simp add: ReadRecord_body_def Let_def record_type_defs)
next
  case False
  define L where "L = stored_length (buffer r)"
  define extra where "extra = (if in_frag then length scratch else 0)"
  define r1 where "r1 = r\<lparr>buffer := drop (kHeaderSize + L) (buffer r)\<rparr>"
  have fits: "kHeaderSize + L \<le> length (buffer r)"
    using ok(1) by (simp add: bad_length_def L_def)
  have rpr: "ReadPhysicalRecord crc r fragment =
          (record_type_of (buffer r), take L (drop kHeaderSize (buffer r)), r1)"
    using RPR_well_formed [OF hdr ok] False by (simp add: L_def r1_def)
  have lf: "length (take L (drop kHeaderSize (buffer r))) = L"
    using fits by simp
  have off: "unat (physical_record_offset r) = unat (end_of_buffer_offset r) - length (buffer r)"
    using pos by (simp add: physical_record_offset_def unat_sub_of_nat)
  have init: "unat (initial_offset r) \<le> unat (physical_record_offset r)"
    using False by (simp add: word_less_nat_alt)
  have ex: "unat (initial_offset r) + extra \<le> unat (physical_record_offset r)"
    using inv init by (simp add: extra_def)
  have g1: "unat (end_of_buffer_offset r - of_nat (length (buffer r) - (kHeaderSize + L)))
              = unat (end_of_buffer_offset r) - (length (buffer r) - (kHeaderSize + L))"
    using pos by (intro unat_sub_of_nat) simp
  have kh: "kHeaderSize = 7" by (simp add: kHeaderSize_def)
  have g2: "unat (end_of_buffer_offset r - of_nat (length (buffer r) - (kHeaderSize + L))
                    - of_nat (L + extra))
              = unat (end_of_buffer_offset r) - (length (buffer r) - (kHeaderSize + L)) - (L + extra)"
    using pos fits ex off hdr by (subst unat_sub_of_nat) (simp_all add: g1 del: of_nat_diff)
  have guard: "initial_offset r \<le>
      end_of_buffer_offset r - of_nat (length (buffer r) - (kHeaderSize + L)) - of_nat (L + extra)"
  proof -
    have "unat (initial_offset r) \<le>
        unat (end_of_buffer_offset r) - (length (buffer r) - (kHeaderSize + L)) - (L + extra)"
      using pos fits ex off hdr by simp
    then show ?thesis by (simp only: word_le_nat_alt g2)
  qed
  have ty: "record_type_of (buffer r) \<noteq> kFullType" "record_type_of (buffer r) \<noteq> kFirstType"
    "record_type_of (buffer r) \<noteq> kMiddleType" "record_type_of (buffer r) \<noteq> kLastType"
    "record_type_of (buffer r) \<noteq> kEof" "record_type_of (buffer r) \<noteq> kBadRecord"
    using unk by (auto simp: unknown_type_def)
  define msg where "msg = ''unknown record type '' @ decimal (unat (record_type_of (buffer r)))"
  have "ReadRecord_body crc r scratch in_frag p fragment =
          Continue (ReportCorruption (r1\<lparr>resyncing := False\<rparr>) (of_nat (L + extra)) msg)
            [] False p (take L (drop kHeaderSize (buffer r)))"
    using rpr ty lf by (simp add: ReadRecord_body_def Let_def extra_def msg_def)
  moreover have "reported (ReportCorruption (r1\<lparr>resyncing := False\<rparr>) (of_nat (L + extra)) msg) =
        (if reporter r then reported r @ [(of_nat (L + extra), Corruption msg)]
         else reported r)"
    using guard by (simp add: ReportCorruption_def ReportDrop_def r1_def del: of_nat_diff of_nat_add)
  moreover have "initial_offset r \<le> physical_record_offset r"
    using False by (simp add: not_less)
  ultimately show ?thesis
    by (simp add: L_def extra_def msg_def)
qed

lemma RPR_overrun_tail:
  "ReadPhysicalRecord crc (new_Reader overrun_tail_file True False 0) [] =
     (kEof, [],
      (new_Reader overrun_tail_file True False 0)
        \<lparr>the_file := \<lparr>unread = [], failing = False\<rparr>, buffer := [], eof := True,
         end_of_buffer_offset := 8\<rparr>)"
  apply (subst ReadPhysicalRecord.simps)
  apply (simp add: new_Reader_def overrun_tail_file_def file_Read_def kHeaderSize_def kBlockSize_def)
  apply (subst ReadPhysicalRecord.simps)
  apply (simp add: kHeaderSize_def record_type_defs)
  done

lemma tail_reader_facts:
  "reporter (tail_reader buf cs e init)"
  "length (buffer (tail_reader [a0, a1, a2, a3, a4, a5, a6, a7] cs e init)) = 8"
  "unat (end_of_buffer_offset (tail_reader buf cs e init)) = 32768"
  "physical_record_offset (tail_reader [a0, a1, a2, a3, a4, a5, a6, a7] cs e init) = 32760"
  by (simp_all add: tail_reader_def physical_record_offset_def)

text \<open>
  What holds of the reports of bad records: with a Reporter and a record header at
  the front of the buffer, a length exceeding the buffer before the end of the file,
  a checksum mismatch, and a type other than FULL, FIRST, MIDDLE, LAST, 5 and 6 are
  reported exactly when the record starts at or after \<open>initial_offset\<close>, and a
  length exceeding the buffer at the end of the file is not reported.
\<close>

lemma bad_record_reporting:
  assumes "reporter r"
    and "kHeaderSize \<le> length (buffer r)"
    and "length (buffer r) \<le> unat (end_of_buffer_offset r)"
    and "in_frag \<longrightarrow>
           unat (initial_offset r) + length scratch \<le> unat (physical_record_offset r)"
  shows "(bad_length r \<and> \<not> eof r \<longrightarrow>
            reported (snd (snd (ReadPhysicalRecord crc r fragment))) =
              (if initial_offset r \<le> physical_record_offset r
               then reported r @ [(of_nat (length (buffer r)), Corruption ''bad record length'')]
               else reported r)) \<and>
         (bad_length r \<and> eof r \<longrightarrow>
            reported (snd (snd (ReadPhysicalRecord crc r fragment))) = reported r) \<and>
         (\<not> bad_length r \<and> \<not> zero_padding r \<and> crc_mismatch crc r \<longrightarrow>
            reported (snd (snd (ReadPhysicalRecord crc r fragment))) =
              (if initial_offset r \<le> physical_record_offset r
               then reported r @ [(of_nat (length (buffer r)), Corruption ''checksum mismatch'')]
               else reported r)) \<and>
         (\<not> bad_length r \<and> \<not> zero_padding r \<and> \<not> crc_mismatch crc r \<and> unknown_type r \<longrightarrow>
            reported (step_reader (ReadRecord_body crc r scratch in_frag p fragment)) =
              (if initial_offset r \<le> physical_record_offset r
               then reported r @
                      [(of_nat (stored_length (buffer r) + (if in_frag then length scratch else 0)),
                        Corruption (''unknown record type '' @
                          decimal (unat (record_type_of (buffer r)))))]
               else reported r))"
  using assms RPR_bad_length [OF assms(2), of crc fragment]
    RPR_crc_mismatch [OF assms(2), of crc fragment]
    unknown_type_step [OF assms(2,3,4), of crc p fragment]
    reported_ReportCorruption_cleared [OF assms(1)]
  by auto

lemma decimal_digit: "n < 10 \<Longrightarrow> decimal n = [''0123456789'' ! n]"
  by (subst decimal.simps) simp

text \<open>
  Runs of \<open>ReadRecord\<close> over the files of two records, with a Reporter, without
  checksum verification and from offset 0.  After a first record of type 9 the
  reader reports one byte dropped and returns the second record; after a first
  record of type 6 it returns the second record and reports nothing; after a first
  record of type 5 it returns false and reports nothing.
\<close>

lemma new_Reader_zero:
  "last_record_offset (new_Reader f rep cs 0) = 0" "initial_offset (new_Reader f rep cs 0) = 0"
  by (simp_all add: new_Reader_def)

lemma RPR_typed_record:
  "ReadPhysicalRecord no_crc (new_Reader (typed_record_file t) True False 0) [] =
     (scast t, [0x61],
      (new_Reader (typed_record_file t) True False 0)
        \<lparr>the_file := \<lparr>unread = [], failing = False\<rparr>,
         buffer := [0, 0, 0, 0, 1, 0, 1, 0x62], eof := True, end_of_buffer_offset := 16\<rparr>)"
  apply (subst ReadPhysicalRecord.simps)
  apply (simp add: new_Reader_def typed_record_file_def file_Read_def kHeaderSize_def kBlockSize_def)
  apply (subst ReadPhysicalRecord.simps)
  apply (simp add: kHeaderSize_def record_type_defs)
  done

lemma RPR_second_record:
  assumes "buffer r = [0, 0, 0, 0, 1, 0, 1, 0x62]" and "\<not> checksum r"
    and "end_of_buffer_offset r = 16" and "initial_offset r = 0"
  shows "ReadPhysicalRecord crc r res = (kFullType, [0x62], r\<lparr>buffer := []\<rparr>)"
  using assms
  by (subst ReadPhysicalRecord.simps) (simp add: kHeaderSize_def record_type_defs)

lemma ReadRecord_typed:
  "ReadRecord no_crc (new_Reader (typed_record_file t) True False 0) [] [] =
     (let r1 = (new_Reader (typed_record_file t) True False 0)
                 \<lparr>the_file := \<lparr>unread = [], failing = False\<rparr>,
                  buffer := [0, 0, 0, 0, 1, 0, 1, 0x62], eof := True, end_of_buffer_offset := 16\<rparr>
      in if t = 5 then (False, [], [], r1)
         else if t = 6 then (True, [0x62], [], r1\<lparr>buffer := [], last_record_offset := 8\<rparr>)
         else if t = 9 then
           (True, [0x62], [],
            r1\<lparr>buffer := [], last_record_offset := 8,
               reported := [(1, Corruption ''unknown record type 9'')]\<rparr>)
         else ReadRecord no_crc (new_Reader (typed_record_file t) True False 0) [] [])"
proof -
  define r0 where "r0 = new_Reader (typed_record_file t) True False 0"
  define r1 where "r1 = r0\<lparr>the_file := \<lparr>unread = [], failing = False\<rparr>,
                  buffer := [0, 0, 0, 0, 1, 0, 1, 0x62], eof := True, end_of_buffer_offset := 16\<rparr>"
  have f0: "last_record_offset r0 = 0" "initial_offset r0 = 0" "\<not> resyncing r0"
    by (simp_all add: r0_def new_Reader_def)
  have f1: "buffer r1 = [0, 0, 0, 0, 1, 0, 1, 0x62]" "\<not> checksum r1" "end_of_buffer_offset r1 = 16"
    "initial_offset r1 = 0" "\<not> resyncing r1" "reporter r1" "reported r1 = []"
    "r1\<lparr>resyncing := False\<rparr> = r1"
    by (simp_all add: r1_def r0_def new_Reader_def)
  have rpr: "ReadPhysicalRecord no_crc r0 [] = (scast t, [0x61], r1)"
    unfolding r0_def r1_def by (rule RPR_typed_record)
  have start: "ReadRecord no_crc r0 [] [] = ReadRecord_loop no_crc r0 [] False 0 []"
    by (simp add: ReadRecord_def f0)
  have second: "ReadRecord_loop no_crc r' [] False 0 fr =
      (True, [0x62], [], r'\<lparr>buffer := [], last_record_offset := 8\<rparr>)"
    if "buffer r' = [0, 0, 0, 0, 1, 0, 1, 0x62]" "\<not> checksum r'" "end_of_buffer_offset r' = 16"
      "initial_offset r' = 0" "\<not> resyncing r'" for r' fr
  proof -
    have e: "r'\<lparr>buffer := [], resyncing := False, last_record_offset := 8\<rparr> =
             r'\<lparr>buffer := [], last_record_offset := 8\<rparr>"
      using that(5) by simp
    show ?thesis
      using that e
      by (subst ReadRecord_loop.simps)
         (simp add: ReadRecord_body_def RPR_second_record [OF that(1-4)] record_type_defs)
  qed
  have five: "ReadRecord_loop no_crc r0 [] False 0 [] = (False, [], [], r1)" if "t = 5"
    using that f0 f1(8)
    by (subst ReadRecord_loop.simps) (simp add: ReadRecord_body_def rpr record_type_defs)
  have six: "ReadRecord_loop no_crc r0 [] False 0 [] =
      (True, [0x62], [], r1\<lparr>buffer := [], last_record_offset := 8\<rparr>)" if "t = 6"
  proof -
    have "ReadRecord_body no_crc r0 [] False 0 [] = Continue r1 [] False 0 [0x61]"
      using that f0 f1(8) by (simp add: ReadRecord_body_def rpr record_type_defs)
    then show ?thesis
      by (subst ReadRecord_loop.simps) (simp add: second [OF f1(1-5)])
  qed
  have nine: "ReadRecord_loop no_crc r0 [] False 0 [] =
      (True, [0x62], [],
       r1\<lparr>buffer := [], last_record_offset := 8,
          reported := [(1, Corruption ''unknown record type 9'')]\<rparr>)" if "t = 9"
  proof -
    define r2 where "r2 = r1\<lparr>reported := [(1, Corruption ''unknown record type 9'')]\<rparr>"
    have rc: "ReportCorruption r1 1 ''unknown record type 9'' = r2"
      by (simp add: ReportCorruption_def ReportDrop_def f1 r2_def)
    have "ReadRecord_body no_crc r0 [] False 0 [] = Continue r2 [] False 0 [0x61]"
      using that f0 f1(8) by (simp add: ReadRecord_body_def rpr record_type_defs decimal_digit rc)
    moreover have "ReadRecord_loop no_crc r2 [] False 0 [0x61] =
        (True, [0x62], [], r2\<lparr>buffer := [], last_record_offset := 8\<rparr>)"
      by (rule second) (simp_all add: r2_def f1)
    ultimately show ?thesis
      by (subst ReadRecord_loop.simps) (simp add: r2_def)
  qed
  show ?thesis
    using five six nine start
    by (simp add: Let_def r0_def [symmetric] r1_def [symmetric])
qed

text \<open>
  A read that fails is reported whatever \<open>initial_offset\<close> is: the reader is at
  offset 0, and \<open>0 - 32768\<close> wraps around in \<open>ReportDrop\<close>.
\<close>

lemma failed_read_reported_before_initial_offset:
  "ReadRecord crc (new_Reader \<lparr>unread = bs, failing = True\<rparr> True cs 100) [] [] =
     (False, [], [],
      (new_Reader \<lparr>unread = bs, failing = True\<rparr> True cs 100)
        \<lparr>eof := True, resyncing := False, reported := [(32768, IOError ''read'')]\<rparr>)"
proof -
  define r0 where "r0 = (new_Reader \<lparr>unread = bs, failing = True\<rparr> True cs 100)
                          \<lparr>end_of_buffer_offset := 0\<rparr>"
  have rpr: "ReadPhysicalRecord crc r0 [] =
          (kEof, [], r0\<lparr>eof := True, reported := [(32768, IOError ''read'')]\<rparr>)"
    by (subst ReadPhysicalRecord.simps)
       (simp add: r0_def new_Reader_def file_Read_def kHeaderSize_def kBlockSize_def
          ReportDrop_def)
  have "ReadRecord_loop crc r0 [] False 0 [] =
          (False, [], [], r0\<lparr>eof := True, reported := [(32768, IOError ''read'')],
             resyncing := False\<rparr>)"
    by (subst ReadRecord_loop.simps)
       (simp add: ReadRecord_body_def rpr record_type_defs)
  moreover have "ReadRecord crc (new_Reader \<lparr>unread = bs, failing = True\<rparr> True cs 100) [] [] =
      ReadRecord_loop crc r0 [] False 0 []"
    by (simp add: ReadRecord_def SkipToInitialBlock_def r0_def new_Reader_def kBlockSize_def)
  ultimately show ?thesis by (simp add: r0_def new_Reader_def)
qed

section \<open>db/write_batch.cc: Iterate and InsertInto\<close>

text \<open>Decoding consumes input: the facts that make the loop below terminate.\<close>

lemma GetVarint32Loop_length:
  "GetVarint32Loop shift result p = Some (v, rest) \<Longrightarrow> length rest < length p"
  by (induction shift result p rule: GetVarint32Loop.induct) (auto split: if_splits)

lemma GetVarint32_length:
  "GetVarint32 input = Some (v, rest) \<Longrightarrow> length rest < length input"
  by (auto simp: GetVarint32_def GetVarint32Ptr_def GetVarint32PtrFallback_def
      split: list.splits if_splits dest: GetVarint32Loop_length)

lemma GetLengthPrefixedSlice_length:
  "GetLengthPrefixedSlice input = Some (r, rest) \<Longrightarrow> length rest < length input"
proof -
  assume a: "GetLengthPrefixedSlice input = Some (r, rest)"
  then obtain len r1 where g: "GetVarint32 input = Some (len, r1)" and "rest = drop (unat len) r1"
    by (auto simp: GetLengthPrefixedSlice_def split: option.splits if_splits)
  then have "length rest \<le> length r1" by simp
  with GetVarint32_length [OF g] show ?thesis by simp
qed

text \<open>
  A \<open>WriteBatch::Handler\<close> is its two virtual functions; they act on a state of
  the handler's own.
\<close>

record 'h Handler =
  handler_Put :: "bytes \<Rightarrow> bytes \<Rightarrow> 'h \<Rightarrow> 'h"
  handler_Delete :: "bytes \<Rightarrow> 'h \<Rightarrow> 'h"

text \<open>
  The \<open>while (!input.empty())\<close> loop of \<open>Iterate\<close>.  It returns the status
  with which the loop ends (OK when the input is used up), the counter \<open>found\<close>
  and the state of the handler.  \<open>found\<close> is an \<open>int\<close>; it counts records and
  stays far below \<open>2^31\<close> for any batch a process can hold.
\<close>

function Iterate_loop :: "'h Handler \<Rightarrow> bytes \<Rightarrow> int \<Rightarrow> 'h \<Rightarrow> Status \<times> int \<times> 'h" where
  "Iterate_loop handler input found h =
     (if input = [] then (OK, found, h)
      else
        (let found = found + 1;
             tag = hd input;
             input = tl input
         in if tag = kTypeValue then
              (case GetLengthPrefixedSlice input of
                 None \<Rightarrow> (Corruption ''bad WriteBatch Put'', found, h)
               | Some (key, input) \<Rightarrow>
                   (case GetLengthPrefixedSlice input of
                      None \<Rightarrow> (Corruption ''bad WriteBatch Put'', found, h)
                    | Some (val, input) \<Rightarrow>
                        Iterate_loop handler input found (handler_Put handler key val h)))
            else if tag = kTypeDeletion then
              (case GetLengthPrefixedSlice input of
                 None \<Rightarrow> (Corruption ''bad WriteBatch Delete'', found, h)
               | Some (key, input) \<Rightarrow>
                   Iterate_loop handler input found (handler_Delete handler key h))
            else (Corruption ''unknown WriteBatch tag'', found, h)))"
  by pat_completeness auto
termination
  by (relation "measure (\<lambda>(handler, input, found, h). length input)")
     (auto dest!: GetLengthPrefixedSlice_length simp: neq_Nil_conv)

definition Iterate :: "'h Handler \<Rightarrow> WriteBatch \<Rightarrow> 'h \<Rightarrow> Status \<times> 'h" where
  "Iterate handler rep h =
     (if length rep < kHeader then (Corruption ''malformed WriteBatch (too small)'', h)
      else
        (let (s, found, h) = Iterate_loop handler (drop kHeader rep) 0 h
         in if s \<noteq> OK then (s, h)
            else if found \<noteq> Count rep then (Corruption ''WriteBatch has wrong count'', h)
            else (OK, h)))"

text \<open>
  Modelled from the spec: \<open>MemTable::Add\<close> belongs to db/memtable.cc, which is not
  part of the sources at hand.  Section 4.4 only needs the tag it is called with, so
  the model of a memtable is the list of the calls: sequence, type, key, value.
\<close>

type_synonym MemTable = "(u64 \<times> byte \<times> bytes \<times> bytes) list"

definition MemTable_Add :: "MemTable \<Rightarrow> u64 \<Rightarrow> byte \<Rightarrow> bytes \<Rightarrow> bytes \<Rightarrow> MemTable" where
  "MemTable_Add m s t key val = m @ [(s, t, key, val)]"

text \<open>\<open>MemTableInserter\<close> and \<open>WriteBatchInternal::InsertInto\<close>.\<close>

record MemTableInserter =
  sequence :: u64
  mem :: MemTable

definition inserter_Put :: "bytes \<Rightarrow> bytes \<Rightarrow> MemTableInserter \<Rightarrow> MemTableInserter" where
  "inserter_Put key val ins =
     ins\<lparr>mem := MemTable_Add (mem ins) (sequence ins) kTypeValue key val,
         sequence := sequence ins + 1\<rparr>"

definition inserter_Delete :: "bytes \<Rightarrow> MemTableInserter \<Rightarrow> MemTableInserter" where
  "inserter_Delete key ins =
     ins\<lparr>mem := MemTable_Add (mem ins) (sequence ins) kTypeDeletion key [],
         sequence := sequence ins + 1\<rparr>"

definition MemTableInserter_handler :: "MemTableInserter Handler" where
  "MemTableInserter_handler = \<lparr>handler_Put = inserter_Put, handler_Delete = inserter_Delete\<rparr>"

definition InsertInto :: "WriteBatch \<Rightarrow> MemTable \<Rightarrow> Status \<times> MemTable" where
  "InsertInto b memtable =
     (let (s, ins) = Iterate MemTableInserter_handler b \<lparr>sequence = Sequence b, mem = memtable\<rparr>
      in (s, mem ins))"

text \<open>
  Notions for stating the claims about batches.  A batch is well formed when it is
  what \<open>Put\<close> and \<open>Delete\<close> build from a cleared batch; \<open>batch_of s ops\<close>
  is the batch built with sequence \<open>s\<close> by the operations \<open>ops\<close> in order.
  An operation fits when its strings are shorter than \<open>2^32\<close> bytes, the range of
  the varint32 length prefix.  \<open>callback\<close> is the call an operation stands for,
  and \<open>recorder\<close> is a handler that records the calls it receives.
\<close>

datatype batch_op = PutOp bytes bytes | DeleteOp bytes

fun apply_op :: "batch_op \<Rightarrow> WriteBatch \<Rightarrow> WriteBatch" where
  "apply_op (PutOp key val) b = Put key val b"
| "apply_op (DeleteOp key) b = Delete key b"

definition batch_of :: "u64 \<Rightarrow> batch_op list \<Rightarrow> WriteBatch" where
  "batch_of s ops = fold apply_op ops (SetSequence Clear s)"

fun op_fits :: "batch_op \<Rightarrow> bool" where
  "op_fits (PutOp key val) \<longleftrightarrow> length key < 2 ^ 32 \<and> length val < 2 ^ 32"
| "op_fits (DeleteOp key) \<longleftrightarrow> length key < 2 ^ 32"

fun callback :: "'h Handler \<Rightarrow> batch_op \<Rightarrow> 'h \<Rightarrow> 'h" where
  "callback handler (PutOp key val) h = handler_Put handler key val h"
| "callback handler (DeleteOp key) h = handler_Delete handler key h"

definition recorder :: "batch_op list Handler" where
  "recorder = \<lparr>handler_Put = (\<lambda>key val calls. calls @ [PutOp key val]),
               handler_Delete = (\<lambda>key calls. calls @ [DeleteOp key])\<rparr>"

fun entry_of :: "u64 \<Rightarrow> batch_op \<Rightarrow> u64 \<times> byte \<times> bytes \<times> bytes" where
  "entry_of s (PutOp key val) = (s, kTypeValue, key, val)"
| "entry_of s (DeleteOp key) = (s, kTypeDeletion, key, [])"

text \<open>
  The encodings of section 4.1 read as a grammar, in the words of the specification
  and without the decoders of coding.cc.  A varint is a run of bytes with the high
  bit set and a terminating byte with the high bit clear; every byte carries seven
  bits of the value, the least significant group first.  A varint32 has at most five
  bytes, and its value is kept to 32 bits.  It is malformed when the input ends
  before the terminating byte or the first five bytes all have the high bit set.  A
  length-prefixed string is a varint32 \<open>n\<close> followed by \<open>n\<close> bytes; it is malformed
  when its varint32 is, or when fewer than \<open>n\<close> bytes follow.
\<close>

definition varint_value :: "bytes \<Rightarrow> nat" where
  "varint_value gs = foldr (\<lambda>b v. unat b mod 128 + 128 * v) gs 0"

definition spec_varint32 :: "bytes \<Rightarrow> (nat \<times> bytes) option" where
  "spec_varint32 input =
     (let n = length (takeWhile (\<lambda>b. 128 \<le> b) input)
      in if n < length input \<and> n < 5
         then Some (varint_value (take (Suc n) input) mod 2 ^ 32, drop (Suc n) input)
         else None)"

definition spec_length_prefixed :: "bytes \<Rightarrow> (bytes \<times> bytes) option" where
  "spec_length_prefixed input =
     (case spec_varint32 input of
        None \<Rightarrow> None
      | Some (n, rest) \<Rightarrow>
          if n \<le> length rest then Some (take n rest, drop n rest) else None)"

lemma spec_length_prefixed_length:
  "spec_length_prefixed input = Some (r, rest) \<Longrightarrow> length rest < length input"
  by (auto simp: spec_length_prefixed_def spec_varint32_def Let_def split: option.splits if_splits)

text \<open>
  The layout of section 3 read as a grammar over these: \<open>encode_op\<close> is one record
  as \<open>Put\<close> and \<open>Delete\<close> write it, and \<open>spec_records\<close> reads records off a
  payload until it is used up, or a tag is neither value nor deletion, or a
  length-prefixed string is malformed.  It returns the records read so far and how
  the reading ended.
\<close>

fun encode_op :: "batch_op \<Rightarrow> bytes" where
  "encode_op (PutOp key val) =
     [kTypeValue] @ PutLengthPrefixedSlice [] key @ PutLengthPrefixedSlice [] val"
| "encode_op (DeleteOp key) = [kTypeDeletion] @ PutLengthPrefixedSlice [] key"

datatype parse_end = Complete | UnknownTag | MalformedPut | MalformedDelete

function spec_records :: "bytes \<Rightarrow> batch_op list \<times> parse_end" where
  "spec_records [] = ([], Complete)"
| "spec_records (tag # rest) =
     (if tag = kTypeValue then
        (case spec_length_prefixed rest of
           None \<Rightarrow> ([], MalformedPut)
         | Some (key, rest1) \<Rightarrow>
             (case spec_length_prefixed rest1 of
                None \<Rightarrow> ([], MalformedPut)
              | Some (val, rest2) \<Rightarrow>
                  (let (ops, e) = spec_records rest2 in (PutOp key val # ops, e))))
      else if tag = kTypeDeletion then
        (case spec_length_prefixed rest of
           None \<Rightarrow> ([], MalformedDelete)
         | Some (key, rest1) \<Rightarrow>
             (let (ops, e) = spec_records rest1 in (DeleteOp key # ops, e)))
      else ([], UnknownTag))"
  by pat_completeness auto
termination
  by (relation "measure length") (auto dest!: spec_length_prefixed_length)

fun status_of :: "parse_end \<Rightarrow> Status" where
  "status_of Complete = OK"
| "status_of UnknownTag = Corruption ''unknown WriteBatch tag''"
| "status_of MalformedPut = Corruption ''bad WriteBatch Put''"
| "status_of MalformedDelete = Corruption ''bad WriteBatch Delete''"

definition s3_ops :: "batch_op list" where
  "s3_ops = [PutOp [0x6b, 0x31] [0x76, 0x31], DeleteOp [0x6b, 0x32], PutOp [0x6b, 0x33] [0x76, 0x33]]"

subsection \<open>Round trips of the codecs\<close>

lemma word_less_bits: "(v::u32) < 2 ^ k \<Longrightarrow> bit v n \<Longrightarrow> n < k"
proof -
  assume lt: "v < 2 ^ k" and b: "bit v n"
  from lt have "v AND mask k = v" by (rule less_mask_eq)
  then have "bit (v AND mask k) n" using b by simp
  then show "n < k" by (simp add: bit_and_iff bit_mask_iff)
qed

lemmas word_less_bits_num =
  word_less_bits [where k = 7, simplified] word_less_bits [where k = 14, simplified]
  word_less_bits [where k = 21, simplified] word_less_bits [where k = 28, simplified]

lemma bit_128: "bit (128 :: 'a::len word) n \<longleftrightarrow> n = 7 \<and> 7 < LENGTH('a)"
proof -
  have "(128 :: 'a word) = 2 ^ 7" by simp
  then show ?thesis by (simp only: bit_exp_iff possible_bit_word) auto
qed

lemma bit_127: "bit (127 :: 'a::len word) n \<longleftrightarrow> n < 7 \<and> n < LENGTH('a)"
proof -
  have "(127 :: 'a word) = mask 7" by (simp add: mask_eq_exp_minus_1)
  then show ?thesis by (simp only: bit_mask_iff possible_bit_word) auto
qed

lemma bit_128_int: "bit (128 :: int) n \<longleftrightarrow> n = 7"
proof -
  have "(128 :: int) = 2 ^ 7" by simp
  then show ?thesis by (simp only: bit_exp_iff) auto
qed

lemma bit_127_int: "bit (127 :: int) n \<longleftrightarrow> n < 7"
proof -
  have "(127 :: int) = mask 7" by (simp add: mask_eq_exp_minus_1)
  then show ?thesis by (simp only: bit_mask_iff) auto
qed

lemmas varint_bits = bit_simps bit_128 bit_127 bit_128_int bit_127_int

lemma cont_byte: "(ucast ((w::u32) OR 128) :: byte) AND 128 \<noteq> 0"
proof
  assume "(ucast (w OR 128) :: byte) AND 128 = 0"
  then have "\<not> bit ((ucast (w OR 128) :: byte) AND 128) 7" by simp
  then show False by (simp add: varint_bits)
qed

lemma last_byte: "(w::u32) < 2 ^ 7 \<Longrightarrow> (ucast w :: byte) AND 128 = 0"
  by (rule bit_eqI) (auto simp: varint_bits dest: word_less_bits_num)

lemma low7: "(ucast (ucast (w OR 128 :: u32) AND (127 :: byte)) :: u32) = w AND 127"
  by (rule bit_eqI) (auto simp: varint_bits)

lemma drop_bit_less: "(v::u32) < 2 ^ (k + 7) \<Longrightarrow> drop_bit k v < 2 ^ 7"
proof -
  assume "v < 2 ^ (k + 7)"
  then have "\<And>n. bit v n \<Longrightarrow> n < k + 7" by (rule word_less_bits)
  then have "\<And>n. bit v (k + n) \<Longrightarrow> n < 7" by fastforce
  then have "drop_bit k v AND mask 7 = drop_bit k v"
    by (intro bit_eqI) (auto simp: bit_simps)
  moreover have "drop_bit k v AND mask 7 < 2 ^ 7"
    by (rule and_mask_less_size) (simp add: word_size)
  ultimately show ?thesis by simp
qed


lemma drop_bit_28_less: "drop_bit 28 (v::u32) < 2 ^ 7"
proof -
  have "drop_bit 28 v AND mask 7 = drop_bit 28 v"
    by (intro bit_eqI) (auto simp: bit_simps dest: bit_imp_le_length)
  moreover have "drop_bit 28 v AND mask 7 < 2 ^ 7"
    by (rule and_mask_less_size) (simp add: word_size)
  ultimately show ?thesis by simp
qed

lemma ucast_small: "(w::u32) < 2 ^ 7 \<Longrightarrow> (ucast (ucast w :: byte) :: u32) = w"
  by (rule bit_eqI) (auto simp: varint_bits dest: word_less_bits_num)

lemma low7_take: "(ucast (ucast (w OR 128 :: u32) AND (127 :: byte)) :: u32) = take_bit 7 w"
  by (rule bit_eqI) (auto simp: varint_bits)

lemma Loop_more:
  "shift \<le> 28 \<Longrightarrow>
   GetVarint32Loop shift result (ucast (w OR 128 :: u32) # rest) =
     GetVarint32Loop (shift + 7) (result OR push_bit shift (take_bit 7 w)) rest"
  using cont_byte [of w] by (simp add: low7_take)

lemma Loop_last:
  "shift \<le> 28 \<Longrightarrow> (w::u32) < 2 ^ 7 \<Longrightarrow>
   GetVarint32Loop shift result (ucast w # rest) = Some (result OR push_bit shift w, rest)"
  using last_byte [of w] ucast_small [of w] by simp

lemma join_bits:
  "take_bit 7 v OR push_bit 7 (drop_bit 7 v) = (v::u32)"
  "take_bit 7 v OR push_bit 7 (take_bit 7 (drop_bit 7 v)) OR push_bit 14 (drop_bit 14 v) = v"
  "take_bit 7 v OR push_bit 7 (take_bit 7 (drop_bit 7 v)) OR
     push_bit 14 (take_bit 7 (drop_bit 14 v)) OR push_bit 21 (drop_bit 21 v) = v"
  "take_bit 7 v OR push_bit 7 (take_bit 7 (drop_bit 7 v)) OR
     push_bit 14 (take_bit 7 (drop_bit 14 v)) OR push_bit 21 (take_bit 7 (drop_bit 21 v)) OR
     push_bit 28 (drop_bit 28 v) = v"
proof -
  have a: "n < 7 \<or> 7 \<le> n \<and> n < 14 \<or> 14 \<le> n \<and> n < 21 \<or> 21 \<le> n \<and> n < 28 \<or> 28 \<le> n"
    for n :: nat by arith
  show "take_bit 7 v OR push_bit 7 (drop_bit 7 v) = v"
    by (rule bit_eqI) (use a in \<open>fastforce simp: bit_simps\<close>)
  show "take_bit 7 v OR push_bit 7 (take_bit 7 (drop_bit 7 v)) OR push_bit 14 (drop_bit 14 v) = v"
    by (rule bit_eqI) (use a in \<open>fastforce simp: bit_simps\<close>)
  show "take_bit 7 v OR push_bit 7 (take_bit 7 (drop_bit 7 v)) OR
     push_bit 14 (take_bit 7 (drop_bit 14 v)) OR push_bit 21 (drop_bit 21 v) = v"
    by (rule bit_eqI) (use a in \<open>fastforce simp: bit_simps\<close>)
  show "take_bit 7 v OR push_bit 7 (take_bit 7 (drop_bit 7 v)) OR
     push_bit 14 (take_bit 7 (drop_bit 14 v)) OR push_bit 21 (take_bit 7 (drop_bit 21 v)) OR
     push_bit 28 (drop_bit 28 v) = v"
    by (rule bit_eqI) (use a in \<open>fastforce simp: bit_simps\<close>)
qed


lemma less_chain:
  "(v::u32) < 2 ^ 7 \<Longrightarrow> v < 2 ^ 14" "(v::u32) < 2 ^ 14 \<Longrightarrow> v < 2 ^ 21"
  "(v::u32) < 2 ^ 21 \<Longrightarrow> v < 2 ^ 28"
  by (simp_all add: word_less_nat_alt)

lemma GetVarint32PtrFallback_EncodeVarint32:
  "GetVarint32PtrFallback (EncodeVarint32 v @ rest) = Some (v, rest)"
proof -
  consider "v < 2 ^ 7" | "\<not> v < 2 ^ 7" "v < 2 ^ 14" | "\<not> v < 2 ^ 14" "v < 2 ^ 21"
    | "\<not> v < 2 ^ 21" "v < 2 ^ 28" | "\<not> v < 2 ^ 28" by blast
  then show ?thesis
  proof cases
    case 1
    have "GetVarint32Loop 0 0 (ucast v # rest) = Some (0 OR push_bit 0 v, rest)"
      using 1 by (intro Loop_last) simp_all
    then show ?thesis
      using 1 by (simp add: GetVarint32PtrFallback_def EncodeVarint32_def)
  next
    case 2
    have d: "drop_bit 7 v < 2 ^ 7" using 2(2) by (intro drop_bit_less) simp
    have enc: "EncodeVarint32 v = [ucast (v OR 128), ucast (drop_bit 7 v)]"
      using 2 by (simp add: EncodeVarint32_def)
    have "GetVarint32Loop 0 0 (ucast (v OR 128) # ucast (drop_bit 7 v) # rest) =
            Some (take_bit 7 v OR push_bit 7 (drop_bit 7 v), rest)"
      using d by (simp only: Loop_more Loop_last) (simp add: or.assoc)
    then show ?thesis
      unfolding GetVarint32PtrFallback_def enc by (simp only: append.simps join_bits)
  next
    case 3
    have d: "drop_bit 14 v < 2 ^ 7" using 3(2) by (intro drop_bit_less) simp
    have enc: "EncodeVarint32 v =
        [ucast (v OR 128), ucast (drop_bit 7 v OR 128), ucast (drop_bit 14 v)]"
      using 3 less_chain [of v] by (auto simp: EncodeVarint32_def)
    have "GetVarint32Loop 0 0
            (ucast (v OR 128) # ucast (drop_bit 7 v OR 128) # ucast (drop_bit 14 v) # rest) =
            Some (take_bit 7 v OR push_bit 7 (take_bit 7 (drop_bit 7 v)) OR
                  push_bit 14 (drop_bit 14 v), rest)"
      using d by (simp only: Loop_more Loop_last) (simp add: or.assoc)
    then show ?thesis
      unfolding GetVarint32PtrFallback_def enc by (simp only: append.simps join_bits)
  next
    case 4
    have d: "drop_bit 21 v < 2 ^ 7" using 4(2) by (intro drop_bit_less) simp
    have enc: "EncodeVarint32 v =
        [ucast (v OR 128), ucast (drop_bit 7 v OR 128), ucast (drop_bit 14 v OR 128),
         ucast (drop_bit 21 v)]"
      using 4 less_chain [of v] by (auto simp: EncodeVarint32_def)
    have "GetVarint32Loop 0 0
            (ucast (v OR 128) # ucast (drop_bit 7 v OR 128) # ucast (drop_bit 14 v OR 128) #
             ucast (drop_bit 21 v) # rest) =
            Some (take_bit 7 v OR push_bit 7 (take_bit 7 (drop_bit 7 v)) OR
                  push_bit 14 (take_bit 7 (drop_bit 14 v)) OR push_bit 21 (drop_bit 21 v), rest)"
      using d by (simp only: Loop_more Loop_last) (simp add: or.assoc)
    then show ?thesis
      unfolding GetVarint32PtrFallback_def enc by (simp only: append.simps join_bits)
  next
    case 5
    have d: "drop_bit 28 v < 2 ^ 7" by (rule drop_bit_28_less)
    have enc: "EncodeVarint32 v =
        [ucast (v OR 128), ucast (drop_bit 7 v OR 128), ucast (drop_bit 14 v OR 128),
         ucast (drop_bit 21 v OR 128), ucast (drop_bit 28 v)]"
      using 5 less_chain [of v] by (auto simp: EncodeVarint32_def)
    have "GetVarint32Loop 0 0
            (ucast (v OR 128) # ucast (drop_bit 7 v OR 128) # ucast (drop_bit 14 v OR 128) #
             ucast (drop_bit 21 v OR 128) # ucast (drop_bit 28 v) # rest) =
            Some (take_bit 7 v OR push_bit 7 (take_bit 7 (drop_bit 7 v)) OR
                  push_bit 14 (take_bit 7 (drop_bit 14 v)) OR
                  push_bit 21 (take_bit 7 (drop_bit 21 v)) OR push_bit 28 (drop_bit 28 v), rest)"
      using d by (simp only: Loop_more Loop_last) (simp add: or.assoc)
    then show ?thesis
      unfolding GetVarint32PtrFallback_def enc by (simp only: append.simps join_bits)
  qed
qed

lemma GetVarint32_EncodeVarint32:
  "GetVarint32 (EncodeVarint32 v @ rest) = Some (v, rest)"
proof (cases "v < 2 ^ 7")
  case True
  then show ?thesis
    using last_byte [OF True] ucast_small [OF True]
    by (simp add: GetVarint32_def GetVarint32Ptr_def EncodeVarint32_def)
next
  case False
  have "\<exists>bs. EncodeVarint32 v = ucast (v OR 128) # bs"
    using False by (simp add: EncodeVarint32_def)
  then obtain bs where e: "EncodeVarint32 v = ucast (v OR 128) # bs" by blast
  then show ?thesis
    using GetVarint32PtrFallback_EncodeVarint32 [of v rest] cont_byte [of v]
    by (simp add: GetVarint32_def GetVarint32Ptr_def)
qed

lemma GetLengthPrefixedSlice_Put:
  "length v < 2 ^ 32 \<Longrightarrow>
   GetLengthPrefixedSlice (PutLengthPrefixedSlice [] v @ rest) = Some (v, rest)"
  by (simp add: GetLengthPrefixedSlice_def PutLengthPrefixedSlice_def PutVarint32_def
      GetVarint32_EncodeVarint32 unat_of_nat)

lemma bit_255: "bit (255 :: 'a::len word) n \<longleftrightarrow> n < 8 \<and> n < LENGTH('a)"
proof -
  have "(255 :: 'a word) = mask 8" by (simp add: mask_eq_exp_minus_1)
  then show ?thesis by (simp only: bit_mask_iff possible_bit_word) auto
qed

lemma bit_255_int: "bit (255 :: int) n \<longleftrightarrow> n < 8"
proof -
  have "(255 :: int) = mask 8" by (simp add: mask_eq_exp_minus_1)
  then show ?thesis by (simp only: bit_mask_iff) auto
qed

lemma fixed_byte:
  "(ucast (ucast (w AND 0xff :: 'a::len word) :: byte) :: 'a word) = take_bit 8 w"
  by (rule bit_eqI) (auto simp: bit_simps bit_255 bit_255_int)

lemma DecodeFixed32_EncodeFixed32: "DecodeFixed32 (EncodeFixed32 n @ rest) = n"
proof -
  have "take_bit 8 n OR push_bit 8 (take_bit 8 (drop_bit 8 n)) OR
        push_bit 16 (take_bit 8 (drop_bit 16 n)) OR push_bit 24 (take_bit 8 (drop_bit 24 n)) = n"
  proof (rule bit_eqI)
    fix k
    assume "possible_bit TYPE(u32) k"
    then have k: "k < 32" by simp
    consider "k < 8" | "8 \<le> k" "k < 16" | "16 \<le> k" "k < 24" | "24 \<le> k" by linarith
    then show "bit (take_bit 8 n OR push_bit 8 (take_bit 8 (drop_bit 8 n)) OR
        push_bit 16 (take_bit 8 (drop_bit 16 n)) OR push_bit 24 (take_bit 8 (drop_bit 24 n))) k
        = bit n k"
      using k by cases (auto simp: bit_simps)
  qed
  then show ?thesis
    by (simp add: DecodeFixed32_def EncodeFixed32_def fixed_byte)
qed

lemma DecodeFixed64_EncodeFixed64: "DecodeFixed64 (EncodeFixed64 n @ rest) = n"
proof -
  have "take_bit 8 n OR push_bit 8 (take_bit 8 (drop_bit 8 n)) OR
        push_bit 16 (take_bit 8 (drop_bit 16 n)) OR push_bit 24 (take_bit 8 (drop_bit 24 n)) OR
        push_bit 32 (take_bit 8 (drop_bit 32 n)) OR push_bit 40 (take_bit 8 (drop_bit 40 n)) OR
        push_bit 48 (take_bit 8 (drop_bit 48 n)) OR push_bit 56 (take_bit 8 (drop_bit 56 n)) = n"
  proof (rule bit_eqI)
    fix k
    assume "possible_bit TYPE(u64) k"
    then have k: "k < 64" by simp
    consider "k < 8" | "8 \<le> k" "k < 16" | "16 \<le> k" "k < 24" | "24 \<le> k" "k < 32"
      | "32 \<le> k" "k < 40" | "40 \<le> k" "k < 48" | "48 \<le> k" "k < 56" | "56 \<le> k" by linarith
    then show "bit (take_bit 8 n OR push_bit 8 (take_bit 8 (drop_bit 8 n)) OR
        push_bit 16 (take_bit 8 (drop_bit 16 n)) OR push_bit 24 (take_bit 8 (drop_bit 24 n)) OR
        push_bit 32 (take_bit 8 (drop_bit 32 n)) OR push_bit 40 (take_bit 8 (drop_bit 40 n)) OR
        push_bit 48 (take_bit 8 (drop_bit 48 n)) OR push_bit 56 (take_bit 8 (drop_bit 56 n))) k
        = bit n k"
      using k by cases (auto simp: bit_simps)
  qed
  then show ?thesis
    by (simp add: DecodeFixed64_def EncodeFixed64_def fixed_byte)
qed

subsection \<open>The loop of Iterate against the grammar\<close>

declare Iterate_loop.simps [simp del]

subsection \<open>The decoders of coding.cc accept the grammar of section 4.1\<close>

lemma high_bit: "(b::byte) AND 128 \<noteq> 0 \<longleftrightarrow> 128 \<le> b"
proof -
  have a: "b AND 128 = 0 \<longleftrightarrow> \<not> bit b 7"
  proof
    assume "b AND 128 = 0"
    then have "\<not> bit (b AND 128) 7" by simp
    then show "\<not> bit b 7" by (simp add: bit_and_iff bit_128)
  next
    assume "\<not> bit b 7"
    then show "b AND 128 = 0" by (intro bit_eqI) (auto simp: varint_bits)
  qed
  have b: "\<not> bit b 7 \<longleftrightarrow> b < 128"
  proof
    assume n: "\<not> bit b 7"
    have "b AND mask 7 = b"
    proof (rule bit_eqI)
      fix n assume "possible_bit TYPE(byte) n"
      then have "n < 8" by (simp add: possible_bit_word)
      then have "n < 7 \<or> n = 7" by arith
      then show "bit (b AND mask 7) n = bit b n" using n by (auto simp: bit_simps)
    qed
    moreover have "b AND mask 7 < 2 ^ 7" by (rule and_mask_less_size) (simp add: word_size)
    ultimately show "b < 128" by simp
  next
    assume "b < 128"
    then have "b < 2 ^ 7" by simp
    then have "b AND mask 7 = b" by (rule less_mask_eq)
    then have "bit b 7 = bit (b AND mask 7) 7" by simp
    then show "\<not> bit b 7" by (simp add: bit_simps)
  qed
  show ?thesis using a b by auto
qed

lemma low7_value: "unat ((b::byte) AND 127) = unat b mod 128"
proof -
  have "(127 :: byte) = mask 7" by (simp add: mask_eq_exp_minus_1)
  then have "b AND 127 = take_bit 7 b" by (simp add: take_bit_eq_mask)
  then show ?thesis by (simp add: unsigned_take_bit_eq take_bit_eq_mod unat_mod)
qed

lemma varint_value_Cons:
  "varint_value (b # gs) = unat b mod 128 + 128 * varint_value gs"
  by (simp add: varint_value_def)

lemma byte_value: "(b::byte) < 128 \<Longrightarrow> unat b mod 128 = unat b"
  by (simp add: word_less_nat_alt)

lemma or_add_disjoint:
  "take_bit m (r::u32) = r \<Longrightarrow> r OR push_bit m x = r + x * 2 ^ m"
proof -
  assume t: "take_bit m r = r"
  have "\<not> bit r n \<or> \<not> bit (push_bit m x) n" for n
  proof (cases "n < m")
    case True
    then show ?thesis by (simp add: bit_push_bit_iff)
  next
    case False
    have "bit r n = bit (take_bit m r) n" using t by simp
    then show ?thesis using False by (simp add: bit_take_bit_iff)
  qed
  then have "r + push_bit m x = r OR push_bit m x" by (rule disjunctive_add)
  then show ?thesis by (simp add: push_bit_eq_mult)
qed

lemma take_bit_step:
  "take_bit m (r::u32) = r \<Longrightarrow>
   take_bit (m + 7) (r OR push_bit m (ucast ((b::byte) AND 127))) =
     r OR push_bit m (ucast (b AND 127))"
proof (rule bit_eqI)
  fix n
  assume t: "take_bit m r = r"
  have r: "bit r n \<Longrightarrow> n < m"
  proof -
    assume "bit r n"
    then have "bit (take_bit m r) n" using t by simp
    then show "n < m" by (simp add: bit_take_bit_iff)
  qed
  show "bit (take_bit (m + 7) (r OR push_bit m (ucast (b AND 127)))) n =
        bit (r OR push_bit m (ucast (b AND 127))) n"
    using r by (auto simp: varint_bits)
qed

lemma Loop_spec:
  "take_bit (7 * k) result = result \<Longrightarrow>
   GetVarint32Loop (7 * k) result p =
     (let n = length (takeWhile (\<lambda>b. 128 \<le> b) p)
      in if n < length p \<and> n + k < 5
         then Some (result + of_nat (varint_value (take (Suc n) p)) * 2 ^ (7 * k),
                    drop (Suc n) p)
         else None)"
proof (induction p arbitrary: k result)
  case Nil
  then show ?case by simp
next
  case (Cons b q)
  show ?case
  proof (cases "k < 5")
    case False
    then have "\<not> 7 * k \<le> 28" by simp
    then show ?thesis using False by (simp add: Let_def)
  next
    case True
    then have s: "7 * k \<le> 28" by simp
    show ?thesis
    proof (cases "128 \<le> b")
      case hb: True
      define r' where "r' = result OR push_bit (7 * k) (ucast (b AND 127))"
      have t': "take_bit (7 * Suc k) r' = r'"
        using take_bit_step [OF Cons.prems, of b] by (simp add: r'_def add.commute)
      have v: "r' = result + of_nat (unat b mod 128) * 2 ^ (7 * k)"
        using or_add_disjoint [OF Cons.prems, of "ucast (b AND 127)"]
        by (simp add: r'_def low7_value [symmetric])
      have step: "GetVarint32Loop (7 * k) result (b # q) = GetVarint32Loop (7 * Suc k) r' q"
        using s hb by (simp add: high_bit r'_def add.commute)
      have p: "(2::u32) ^ (7 * Suc k) = 128 * 2 ^ (7 * k)" by (simp add: power_add)
      define n' where "n' = length (takeWhile (\<lambda>b. 128 \<le> b) q)"
      define V' where "V' = varint_value (take (Suc n') q)"
      have val: "r' + of_nat V' * 2 ^ (7 * Suc k) =
                 result + of_nat (unat b mod 128 + 128 * V') * 2 ^ (7 * k)"
        by (simp only: v p of_nat_add of_nat_mult of_nat_numeral) (simp add: algebra_simps)
      have lhs: "GetVarint32Loop (7 * Suc k) r' q =
          (if n' < length q \<and> n' + Suc k < 5
           then Some (r' + of_nat V' * 2 ^ (7 * Suc k), drop (Suc n') q) else None)"
        unfolding Cons.IH [OF t'] by (simp only: Let_def n'_def V'_def)
      have rhs: "(let n = length (takeWhile (\<lambda>b. 128 \<le> b) (b # q))
          in if n < length (b # q) \<and> n + k < 5
             then Some (result + of_nat (varint_value (take (Suc n) (b # q))) * 2 ^ (7 * k),
                        drop (Suc n) (b # q))
             else None) =
          (if n' < length q \<and> n' + Suc k < 5
           then Some (result + of_nat (unat b mod 128 + 128 * V') * 2 ^ (7 * k), drop (Suc n') q)
           else None)"
        using hb by (simp add: Let_def n'_def V'_def varint_value_Cons del: of_nat_add of_nat_mult)
      show ?thesis unfolding step lhs rhs val ..
    next
      case lb: False
      then have l: "b < 128" by simp
      have "GetVarint32Loop (7 * k) result (b # q) =
              Some (result OR push_bit (7 * k) (ucast b), q)"
        using s lb by (simp add: high_bit)
      moreover have "result OR push_bit (7 * k) (ucast b) = result + of_nat (unat b) * 2 ^ (7 * k)"
        using or_add_disjoint [OF Cons.prems, of "ucast b"] by simp
      ultimately show ?thesis
        using lb True by (simp add: Let_def varint_value_def byte_value [OF l])
    qed
  qed
qed

lemma GetVarint32_spec:
  "map_option (\<lambda>(v, rest). (unat v, rest)) (GetVarint32 input) = spec_varint32 input"
proof -
  have fb: "GetVarint32PtrFallback input =
     (let n = length (takeWhile (\<lambda>b. 128 \<le> b) input)
      in if n < length input \<and> n < 5
         then Some (of_nat (varint_value (take (Suc n) input)), drop (Suc n) input)
         else None)"
    using Loop_spec [of 0 0 input] by (simp add: GetVarint32PtrFallback_def Let_def)
  have fast: "GetVarint32Ptr input = GetVarint32PtrFallback input"
  proof (cases input)
    case Nil
    then show ?thesis by (simp add: GetVarint32Ptr_def)
  next
    case (Cons b q)
    show ?thesis
    proof (cases "128 \<le> b")
      case True
      then show ?thesis using Cons high_bit [of b] by (simp add: GetVarint32Ptr_def)
    next
      case False
      then have "b < 128" by simp
      then show ?thesis
        using Cons False high_bit [of b] fb
        by (simp add: GetVarint32Ptr_def varint_value_def byte_value)
    qed
  qed
  show ?thesis
    by (simp add: GetVarint32_def fast fb spec_varint32_def Let_def unat_of_nat)
qed

lemma GetLengthPrefixedSlice_spec:
  "GetLengthPrefixedSlice input = spec_length_prefixed input"
proof (cases "GetVarint32 input")
  case None
  then have "spec_varint32 input = None" using GetVarint32_spec [of input] by simp
  then show ?thesis using None by (simp add: GetLengthPrefixedSlice_def spec_length_prefixed_def)
next
  case (Some a)
  obtain v rest where a: "a = (v, rest)" by (cases a)
  then have "spec_varint32 input = Some (unat v, rest)"
    using Some GetVarint32_spec [of input] by simp
  then show ?thesis
    using Some a by (simp add: GetLengthPrefixedSlice_def spec_length_prefixed_def)
qed

subsection \<open>The loop of Iterate reads the records of the grammar\<close>

lemma Iterate_loop_Nil: "Iterate_loop handler [] found h = (OK, found, h)"
  by (simp add: Iterate_loop.simps)

lemma Iterate_loop_Cons:
  "Iterate_loop handler (tag # rest) found h =
     (if tag = kTypeValue then
        (case GetLengthPrefixedSlice rest of
           None \<Rightarrow> (Corruption ''bad WriteBatch Put'', found + 1, h)
         | Some (key, rest1) \<Rightarrow>
             (case GetLengthPrefixedSlice rest1 of
                None \<Rightarrow> (Corruption ''bad WriteBatch Put'', found + 1, h)
              | Some (val, rest2) \<Rightarrow>
                  Iterate_loop handler rest2 (found + 1) (handler_Put handler key val h)))
      else if tag = kTypeDeletion then
        (case GetLengthPrefixedSlice rest of
           None \<Rightarrow> (Corruption ''bad WriteBatch Delete'', found + 1, h)
         | Some (key, rest1) \<Rightarrow>
             Iterate_loop handler rest1 (found + 1) (handler_Delete handler key h))
      else (Corruption ''unknown WriteBatch tag'', found + 1, h))"
  by (subst Iterate_loop.simps) (simp add: Let_def)

lemma Iterate_loop_parse:
  "fst (Iterate_loop handler input found h) = status_of (snd (spec_records input)) \<and>
   snd (snd (Iterate_loop handler input found h)) = fold (callback handler) (fst (spec_records input)) h \<and>
   (snd (spec_records input) = Complete \<longrightarrow>
      fst (snd (Iterate_loop handler input found h)) = found + int (length (fst (spec_records input))))"
proof (induction input arbitrary: found h rule: spec_records.induct)
  case 1
  then show ?case by (simp add: Iterate_loop_Nil)
next
  case (2 tag rest)
  show ?case
  proof (cases "tag = kTypeValue")
    case True
    show ?thesis
    proof (cases "spec_length_prefixed rest")
      case None
      with True show ?thesis by (simp add: Iterate_loop_Cons GetLengthPrefixedSlice_spec)
    next
      case (Some kr)
      obtain key rest1 where kr: "kr = (key, rest1)" by (cases kr)
      show ?thesis
      proof (cases "spec_length_prefixed rest1")
        case None
        with True Some kr show ?thesis by (simp add: Iterate_loop_Cons GetLengthPrefixedSlice_spec)
      next
        case s2: (Some vr)
        obtain val rest2 where vr: "vr = (val, rest2)" by (cases vr)
        have ih: "fst (Iterate_loop handler rest2 f h') = status_of (snd (spec_records rest2)) \<and>
           snd (snd (Iterate_loop handler rest2 f h')) = fold (callback handler) (fst (spec_records rest2)) h' \<and>
           (snd (spec_records rest2) = Complete \<longrightarrow>
              fst (snd (Iterate_loop handler rest2 f h')) = f + int (length (fst (spec_records rest2))))"
          for f h'
          using "2.IH"(1) [OF True Some kr [symmetric] s2 vr [symmetric]] by blast
        show ?thesis
          using True Some kr s2 vr ih [of "found + 1" "handler_Put handler key val h"]
          by (simp add: Iterate_loop_Cons GetLengthPrefixedSlice_spec split_beta)
      qed
    qed
  next
    case nv: False
    show ?thesis
    proof (cases "tag = kTypeDeletion")
      case True
      show ?thesis
      proof (cases "spec_length_prefixed rest")
        case None
        with nv True show ?thesis by (simp add: Iterate_loop_Cons GetLengthPrefixedSlice_spec)
      next
        case (Some kr)
        obtain key rest1 where kr: "kr = (key, rest1)" by (cases kr)
        have ih: "fst (Iterate_loop handler rest1 f h') = status_of (snd (spec_records rest1)) \<and>
           snd (snd (Iterate_loop handler rest1 f h')) = fold (callback handler) (fst (spec_records rest1)) h' \<and>
           (snd (spec_records rest1) = Complete \<longrightarrow>
              fst (snd (Iterate_loop handler rest1 f h')) = f + int (length (fst (spec_records rest1))))"
          for f h'
          using "2.IH"(2) [OF nv True Some kr [symmetric]] by blast
        show ?thesis
          using nv True Some kr ih [of "found + 1" "handler_Delete handler key h"]
          by (simp add: Iterate_loop_Cons GetLengthPrefixedSlice_spec split_beta)
      qed
    next
      case False
      with nv show ?thesis by (simp add: Iterate_loop_Cons GetLengthPrefixedSlice_spec)
    qed
  qed
qed

lemma PutLengthPrefixedSlice_append:
  "PutLengthPrefixedSlice dst v = dst @ PutLengthPrefixedSlice [] v"
  by (simp add: PutLengthPrefixedSlice_def PutVarint32_def)

lemma length_EncodeFixed64: "length (EncodeFixed64 n) = 8"
  by (simp add: EncodeFixed64_def)

lemma Count_header: "Count (EncodeFixed64 s @ EncodeFixed32 n @ p) = sint n"
  by (simp add: Count_def length_EncodeFixed64 DecodeFixed32_EncodeFixed32)

lemma Sequence_header: "Sequence (EncodeFixed64 s @ rest) = s"
  by (simp add: Sequence_def DecodeFixed64_EncodeFixed64)

lemma apply_op_header:
  "apply_op op (EncodeFixed64 s @ EncodeFixed32 n @ p) =
     EncodeFixed64 s @ EncodeFixed32 (n + 1) @ p @ encode_op op"
proof -
  have c: "SetCount (EncodeFixed64 s @ EncodeFixed32 n @ p)
             (Count (EncodeFixed64 s @ EncodeFixed32 n @ p) + 1) =
           EncodeFixed64 s @ EncodeFixed32 (n + 1) @ p"
    by (simp add: SetCount_def Count_header length_EncodeFixed64 length_EncodeFixed32)
  show ?thesis
    by (cases op)
       (simp_all add: Put_def Delete_def c
          PutLengthPrefixedSlice_append [of "_ @ _"] PutLengthPrefixedSlice_append [of "_ # _"])
qed

lemma fold_apply_op_header:
  "fold apply_op ops (EncodeFixed64 s @ EncodeFixed32 n @ p) =
     EncodeFixed64 s @ EncodeFixed32 (n + of_nat (length ops)) @ p @ concat (map encode_op ops)"
  by (induction ops arbitrary: n p) (simp_all add: apply_op_header add.assoc)

lemma batch_of_layout:
  "batch_of s ops =
     EncodeFixed64 s @ EncodeFixed32 (of_nat (length ops)) @ concat (map encode_op ops)"
proof -
  have "SetSequence Clear s = EncodeFixed64 s @ EncodeFixed32 0 @ []"
    by (simp add: SetSequence_def Clear_bytes EncodeFixed32_def)
  then show ?thesis
    using fold_apply_op_header [of ops s 0 "[]"] by (simp add: batch_of_def)
qed

lemma kType_neq: "kTypeValue \<noteq> kTypeDeletion"
  by (simp add: kTypeValue_def kTypeDeletion_def)

lemma spec_records_encode_op:
  assumes "op_fits op"
  shows "spec_records (encode_op op @ rest) =
           (op # fst (spec_records rest), snd (spec_records rest))"
proof (cases op)
  case (PutOp key val)
  then have "spec_length_prefixed (PutLengthPrefixedSlice [] key @ PutLengthPrefixedSlice [] val @ rest)
       = Some (key, PutLengthPrefixedSlice [] val @ rest)"
    and "spec_length_prefixed (PutLengthPrefixedSlice [] val @ rest) = Some (val, rest)"
    using assms by (simp_all add: GetLengthPrefixedSlice_Put [unfolded GetLengthPrefixedSlice_spec])
  then show ?thesis using PutOp by (simp add: split_beta)
next
  case (DeleteOp key)
  then have "spec_length_prefixed (PutLengthPrefixedSlice [] key @ rest) = Some (key, rest)"
    using assms by (simp add: GetLengthPrefixedSlice_Put [unfolded GetLengthPrefixedSlice_spec])
  then show ?thesis using DeleteOp kType_neq by (simp add: split_beta)
qed

lemma spec_records_encoded:
  "\<forall>op \<in> set ops. op_fits op \<Longrightarrow> spec_records (concat (map encode_op ops)) = (ops, Complete)"
  by (induction ops) (simp_all add: spec_records_encode_op)

lemma Iterate_parse:
  "Iterate handler rep h =
     (if length rep < kHeader then (Corruption ''malformed WriteBatch (too small)'', h)
      else
        (let ops = fst (spec_records (drop kHeader rep));
             e = snd (spec_records (drop kHeader rep));
             h = fold (callback handler) ops h
         in if e \<noteq> Complete then (status_of e, h)
            else if int (length ops) \<noteq> Count rep then (Corruption ''WriteBatch has wrong count'', h)
            else (OK, h)))"
proof -
  obtain st found h' where l: "Iterate_loop handler (drop kHeader rep) 0 h = (st, found, h')"
    by (cases "Iterate_loop handler (drop kHeader rep) 0 h") auto
  have ne: "status_of e \<noteq> OK" if "e \<noteq> Complete" for e using that by (cases e) auto
  show ?thesis
    using Iterate_loop_parse [of handler "drop kHeader rep" 0 h] l ne
    by (auto simp: Iterate_def Let_def)
qed

lemma fold_inserter:
  "fold (callback MemTableInserter_handler) ops \<lparr>sequence = q, mem = m\<rparr> =
     \<lparr>sequence = q + of_nat (length ops),
      mem = m @ map (\<lambda>i. entry_of (q + of_nat i) (ops ! i)) [0..<length ops]\<rparr>"
proof (induction ops arbitrary: q m)
  case Nil
  then show ?case by simp
next
  case (Cons op ops)
  have step: "callback MemTableInserter_handler op \<lparr>sequence = q, mem = m\<rparr> =
      \<lparr>sequence = q + 1, mem = m @ [entry_of q op]\<rparr>"
    by (cases op)
       (simp_all add: MemTableInserter_handler_def inserter_Put_def inserter_Delete_def
          MemTable_Add_def)
  show ?case
    by (simp add: step Cons.IH map_upt_Suc add.assoc del: upt_Suc)
qed

lemma fold_recorder: "fold (callback recorder) ops calls = calls @ ops"
proof (induction ops arbitrary: calls)
  case Nil
  then show ?case by simp
next
  case (Cons op ops)
  then show ?case by (cases op) (simp_all add: recorder_def)
qed

lemma sint_of_nat_small: "n < 2 ^ 31 \<Longrightarrow> sint (of_nat n :: u32) = int n"
proof -
  assume n: "n < 2 ^ 31"
  have "sint (of_nat n :: u32) = signed_take_bit 31 (int n)"
    by (simp add: signed_of_nat)
  also have "\<dots> = int n"
    using n by (simp add: signed_take_bit_int_eq_self_iff)
  finally show ?thesis .
qed

lemma is_Corruption_status_of:
  "(\<exists>msg. status_of e = Corruption msg) \<longleftrightarrow> e \<noteq> Complete"
  by (cases e) auto

text \<open>
  C4.  For a well-formed batch with \<open>n\<close> records and sequence \<open>s\<close> (built by
  \<open>Put\<close> and \<open>Delete\<close> from strings that fit, \<open>n < 2^31\<close>), the stored
  count is \<open>n\<close> and the stored sequence \<open>s\<close>; \<open>Iterate\<close> returns OK after
  calling the handler once per record, in record order; and \<open>InsertInto\<close> applies
  record \<open>i\<close> with sequence \<open>s + i\<close>.  For any byte string, \<open>Iterate\<close>
  returns Corruption exactly when the header is shorter than 12 bytes, or the
  records, read by the grammar \<open>spec_records\<close> of the specification, end at a tag
  that is neither value nor deletion or at a malformed length-prefixed string, or
  the number of records differs from the stored count; otherwise it returns OK.  The
  handler has received the records read up to that point, in order, and the status
  is the one of the first of these failures.
\<close>

theorem Iterate_spec:
  "((\<forall>op \<in> set ops. op_fits op) \<and> length ops < 2 ^ 31 \<longrightarrow>
      Count (batch_of s ops) = int (length ops) \<and>
      Sequence (batch_of s ops) = s \<and>
      Iterate handler (batch_of s ops) h = (OK, fold (callback handler) ops h) \<and>
      Iterate recorder (batch_of s ops) [] = (OK, ops) \<and>
      InsertInto (batch_of s ops) m =
        (OK, m @ map (\<lambda>i. entry_of (s + of_nat i) (ops ! i)) [0..<length ops])) \<and>
   ((\<exists>msg. fst (Iterate handler rep h) = Corruption msg) \<longleftrightarrow>
      length rep < kHeader \<or>
      snd (spec_records (drop kHeader rep)) = UnknownTag \<or>
      snd (spec_records (drop kHeader rep)) = MalformedPut \<or>
      snd (spec_records (drop kHeader rep)) = MalformedDelete \<or>
      snd (spec_records (drop kHeader rep)) = Complete \<and>
        int (length (fst (spec_records (drop kHeader rep)))) \<noteq> Count rep) \<and>
   ((\<nexists>msg. fst (Iterate handler rep h) = Corruption msg) \<longrightarrow>
      fst (Iterate handler rep h) = OK) \<and>
   (kHeader \<le> length rep \<longrightarrow>
      snd (Iterate handler rep h) =
        fold (callback handler) (fst (spec_records (drop kHeader rep))) h) \<and>
   fst (Iterate handler rep h) =
     (if length rep < kHeader then Corruption ''malformed WriteBatch (too small)''
      else if snd (spec_records (drop kHeader rep)) \<noteq> Complete
           then status_of (snd (spec_records (drop kHeader rep)))
      else if int (length (fst (spec_records (drop kHeader rep)))) \<noteq> Count rep
           then Corruption ''WriteBatch has wrong count''
      else OK)"
proof -
  have wf: "Count (batch_of s ops) = int (length ops) \<and>
      Sequence (batch_of s ops) = s \<and>
      Iterate handler (batch_of s ops) h = (OK, fold (callback handler) ops h) \<and>
      Iterate recorder (batch_of s ops) [] = (OK, ops) \<and>
      InsertInto (batch_of s ops) m =
        (OK, m @ map (\<lambda>i. entry_of (s + of_nat i) (ops ! i)) [0..<length ops])"
    if fits: "\<forall>op \<in> set ops. op_fits op" and n: "length ops < 2 ^ 31"
  proof -
    have c: "Count (batch_of s ops) = int (length ops)"
      by (simp add: batch_of_layout Count_header sint_of_nat_small [OF n])
    have q: "Sequence (batch_of s ops) = s"
      by (simp add: batch_of_layout Sequence_header)
    have len: "\<not> length (batch_of s ops) < kHeader"
      by (simp add: batch_of_layout kHeader_def length_EncodeFixed64 length_EncodeFixed32)
    have p: "spec_records (drop kHeader (batch_of s ops)) = (ops, Complete)"
      using spec_records_encoded [OF fits]
      by (simp add: batch_of_layout kHeader_def length_EncodeFixed64 length_EncodeFixed32)
    have it: "Iterate hd' (batch_of s ops) h' = (OK, fold (callback hd') ops h')" for hd' h'
      using len by (simp add: Iterate_parse [of hd' "batch_of s ops"] p c Let_def)
    show ?thesis
      by (simp add: c q it fold_recorder InsertInto_def fold_inserter)
  qed
  have e: "fst (Iterate handler rep h) =
     (if length rep < kHeader then Corruption ''malformed WriteBatch (too small)''
      else if snd (spec_records (drop kHeader rep)) \<noteq> Complete
           then status_of (snd (spec_records (drop kHeader rep)))
      else if int (length (fst (spec_records (drop kHeader rep)))) \<noteq> Count rep
           then Corruption ''WriteBatch has wrong count''
      else OK)"
    by (simp add: Iterate_parse [of handler rep] Let_def)
  have corr: "(\<exists>msg. fst (Iterate handler rep h) = Corruption msg) \<longleftrightarrow>
      length rep < kHeader \<or>
      snd (spec_records (drop kHeader rep)) = UnknownTag \<or>
      snd (spec_records (drop kHeader rep)) = MalformedPut \<or>
      snd (spec_records (drop kHeader rep)) = MalformedDelete \<or>
      snd (spec_records (drop kHeader rep)) = Complete \<and>
        int (length (fst (spec_records (drop kHeader rep)))) \<noteq> Count rep"
    unfolding e by (cases "snd (spec_records (drop kHeader rep))") auto
  have ok: "(\<nexists>msg. fst (Iterate handler rep h) = Corruption msg) \<longrightarrow>
      fst (Iterate handler rep h) = OK"
    unfolding e by (cases "snd (spec_records (drop kHeader rep))") auto
  have st: "kHeader \<le> length rep \<longrightarrow>
      snd (Iterate handler rep h) =
        fold (callback handler) (fst (spec_records (drop kHeader rep))) h"
    by (simp add: Iterate_parse [of handler rep] Let_def)
  show ?thesis using wf corr ok st e by blast
qed

text \<open>
  The batch of scenario S3 with sequence 100, and byte strings that fail: a header
  of three bytes; the tag 7; a deletion whose key announces five bytes where one is
  left; a value whose length has no terminating byte; a length of five bytes that
  all have the high bit set; a sound deletion under a stored count of 0.  The last
  string is accepted: its count is 1 and the length of its key is the two-byte
  varint \<open>81 00\<close>.
\<close>

theorem Iterate_spec_witness:
  "Count (batch_of 100 s3_ops) = 3 \<and>
   Sequence (batch_of 100 s3_ops) = 100 \<and>
   Iterate recorder (batch_of 100 s3_ops) [] = (OK, s3_ops) \<and>
   InsertInto (batch_of 100 s3_ops) [] =
     (OK, [(100, kTypeValue, [0x6b, 0x31], [0x76, 0x31]),
           (101, kTypeDeletion, [0x6b, 0x32], []),
           (102, kTypeValue, [0x6b, 0x33], [0x76, 0x33])]) \<and>
   fst (Iterate recorder [0, 0, 0] []) = Corruption ''malformed WriteBatch (too small)'' \<and>
   fst (Iterate recorder (Clear @ [7]) []) = Corruption ''unknown WriteBatch tag'' \<and>
   fst (Iterate recorder (Clear @ [0, 5, 0x61]) []) = Corruption ''bad WriteBatch Delete'' \<and>
   fst (Iterate recorder (Clear @ [1, 1, 0x61, 0x80]) []) = Corruption ''bad WriteBatch Put'' \<and>
   fst (Iterate recorder (Clear @ [0, 0x80, 0x80, 0x80, 0x80, 0x80, 0]) []) =
     Corruption ''bad WriteBatch Delete'' \<and>
   fst (Iterate recorder (Clear @ [0, 1, 0x61]) []) = Corruption ''WriteBatch has wrong count'' \<and>
   snd (Iterate recorder (Clear @ [0, 1, 0x61]) []) = [DeleteOp [0x61]] \<and>
   fst (Iterate recorder (Clear[8 := 1] @ [0, 0x81, 0, 0x61]) []) = OK \<and>
   snd (Iterate recorder (Clear[8 := 1] @ [0, 0x81, 0, 0x61]) []) = [DeleteOp [0x61]]"
proof -
  have fits: "(\<forall>op \<in> set s3_ops. op_fits op) \<and> length s3_ops < 2 ^ 31"
    by (simp add: s3_ops_def)
  have idx: "map (\<lambda>i. entry_of (100 + of_nat i) (s3_ops ! i)) [0..<length s3_ops] =
     [(100, kTypeValue, [0x6b, 0x31], [0x76, 0x31]),
      (101, kTypeDeletion, [0x6b, 0x32], []),
      (102, kTypeValue, [0x6b, 0x33], [0x76, 0x33])]"
    by (simp add: s3_ops_def upt_conv_Cons)
  have len: "length s3_ops = 3" by (simp add: s3_ops_def)
  have hdr: "length Clear = 12" "kHeader = 12"
    by (simp_all add: Clear_def kHeader_def)
  have cnt: "Count (Clear @ x) = 0" "Count (Clear[8 := 1] @ x) = 1" for x
    by (simp_all add: Clear_bytes Count_def DecodeFixed32_bytes)
  have tags: "(7::byte) \<noteq> kTypeValue" "(7::byte) \<noteq> kTypeDeletion" "kTypeValue = 1"
    "kTypeDeletion = 0"
    by (simp_all add: kTypeValue_def kTypeDeletion_def)
  have one: "\<not> 128 \<le> (1::byte)" by (simp add: word_le_nat_alt)
  have sp: "spec_length_prefixed [5, 0x61] = None"
    "spec_length_prefixed [1, 0x61, 0x80] = Some ([0x61], [0x80])"
    "spec_length_prefixed [0x80] = None"
    "spec_length_prefixed [0x80, 0x80, 0x80, 0x80, 0x80, 0] = None"
    "spec_length_prefixed [1, 0x61] = Some ([0x61], [])"
    "spec_length_prefixed [0x81, 0, 0x61] = Some ([0x61], [])"
    by (simp_all add: spec_length_prefixed_def spec_varint32_def varint_value_def Let_def one)
  note inst = Iterate_spec [where ops = s3_ops and s = 100 and handler = recorder
      and h = "[]" and m = "[]"]
  note wf = inst [of "[]", THEN conjunct1, rule_format, OF fits]
  note state = inst [THEN conjunct2, THEN conjunct2, THEN conjunct2, THEN conjunct1, rule_format]
  note status = inst [THEN conjunct2, THEN conjunct2, THEN conjunct2, THEN conjunct2]
  have good: "Count (batch_of 100 s3_ops) = 3 \<and>
     Sequence (batch_of 100 s3_ops) = 100 \<and>
     Iterate recorder (batch_of 100 s3_ops) [] = (OK, s3_ops) \<and>
     InsertInto (batch_of 100 s3_ops) [] =
       (OK, [(100, kTypeValue, [0x6b, 0x31], [0x76, 0x31]),
             (101, kTypeDeletion, [0x6b, 0x32], []),
             (102, kTypeValue, [0x6b, 0x33], [0x76, 0x33])])"
    using wf idx by (simp add: len fold_recorder)
  have use: "fst (Iterate recorder rep []) = st"
    if "\<not> length rep < kHeader" and "spec_records (drop kHeader rep) = (ops, e)"
      and "st = (if e \<noteq> Complete then status_of e
                 else if int (length ops) \<noteq> Count rep
                      then Corruption ''WriteBatch has wrong count'' else OK)"
    for rep ops e st
    using status [of rep] that by simp
  have use': "snd (Iterate recorder rep []) = ops"
    if "kHeader \<le> length rep" and "spec_records (drop kHeader rep) = (ops, e)"
    for rep ops e
    using state [of rep] that by (simp add: fold_recorder)
  have s1: "fst (Iterate recorder [0, 0, 0] []) = Corruption ''malformed WriteBatch (too small)''"
    using status [of "[0, 0, 0]"] by (simp add: kHeader_def)
  have s2: "fst (Iterate recorder (Clear @ [7]) []) = Corruption ''unknown WriteBatch tag''"
    by (rule use [of _ "[]" UnknownTag]) (simp_all add: hdr tags sp)
  have s3: "fst (Iterate recorder (Clear @ [0, 5, 0x61]) []) = Corruption ''bad WriteBatch Delete''"
    by (rule use [of _ "[]" MalformedDelete]) (simp_all add: hdr tags sp)
  have s4: "fst (Iterate recorder (Clear @ [1, 1, 0x61, 0x80]) []) = Corruption ''bad WriteBatch Put''"
    by (rule use [of _ "[]" MalformedPut]) (simp_all add: hdr tags sp)
  have s5: "fst (Iterate recorder (Clear @ [0, 0x80, 0x80, 0x80, 0x80, 0x80, 0]) []) =
      Corruption ''bad WriteBatch Delete''"
    by (rule use [of _ "[]" MalformedDelete]) (simp_all add: hdr tags sp)
  have s6: "fst (Iterate recorder (Clear @ [0, 1, 0x61]) []) = Corruption ''WriteBatch has wrong count''"
    by (rule use [of _ "[DeleteOp [0x61]]" Complete]) (simp_all add: hdr tags sp cnt)
  have s7: "snd (Iterate recorder (Clear @ [0, 1, 0x61]) []) = [DeleteOp [0x61]]"
    by (rule use' [of _ _ Complete]) (simp_all add: hdr tags sp)
  have s8: "fst (Iterate recorder (Clear[8 := 1] @ [0, 0x81, 0, 0x61]) []) = OK"
    by (rule use [of _ "[DeleteOp [0x61]]" Complete]) (simp_all add: hdr tags sp cnt)
  have s9: "snd (Iterate recorder (Clear[8 := 1] @ [0, 0x81, 0, 0x61]) []) = [DeleteOp [0x61]]"
    by (rule use' [of _ _ Complete]) (simp_all add: hdr tags sp)
  show ?thesis
    using good s1 s2 s3 s4 s5 s6 s7 s8 s9 by (intro conjI) blast+
qed

text \<open>
  C7, as stated: whenever the final block of a log file ends with a header whose
  stored length exceeds the bytes remaining in the file, \<open>ReadRecord\<close> returns
  false and reports no corruption.  For a final block of exactly 32768 bytes the
  reader has not yet seen the end of the file when it meets the header, and it
  reports "bad record length" before it returns false.
\<close>

theorem overrun_in_full_block_is_reported:
  "kHeaderSize + stored_length (unread overrun_block_file) > length (unread overrun_block_file) \<and>
   fst (ReadRecord no_crc (new_Reader overrun_block_file True False 0) [] []) = False \<and>
   reported (snd (snd (snd (ReadRecord no_crc (new_Reader overrun_block_file True False 0) [] []))))
     = [(32768, Corruption ''bad record length'')]"
  by (simp add: ReadRecord_overrun_block)
     (simp add: overrun_block_file_def stored_length_def kHeaderSize_def)

text \<open>
  C7, amended: when the reader has reached the end of the file (the last read
  returned fewer than 32768 bytes) and its buffer holds a truncated header or a header
  whose stored length exceeds the bytes that are left, or when the reader is about to
  read a final block of fewer than 32768 bytes that is such a tail, \<open>ReadRecord\<close>
  returns false from its loop, whatever the local state, and nothing is reported.
  The second case covers a truncated header at the end of a full block: the tail to
  read is then empty.
\<close>

theorem truncated_tail_is_eof:
  assumes "eof r \<and> truncated_tail (buffer r) \<or>
           \<not> eof r \<and> length (buffer r) < kHeaderSize \<and> \<not> failing (the_file r) \<and>
             length (unread (the_file r)) < kBlockSize \<and> truncated_tail (unread (the_file r))"
  shows "fst (ReadRecord_loop crc r scratch in_frag p fragment) = False \<and>
         reported (snd (snd (snd (ReadRecord_loop crc r scratch in_frag p fragment)))) = reported r"
proof -
  obtain r1 where rpr: "ReadPhysicalRecord crc r fragment = (kEof, fragment, r1)"
    and rep: "reported r1 = reported r"
    using assms RPR_tail_at_eof [of r crc fragment] RPR_tail_unread [of r crc fragment]
    by auto
  have "ReadRecord_body crc r scratch in_frag p fragment =
          Return False [] (if in_frag then [] else scratch) (r1\<lparr>resyncing := False\<rparr>)"
    using rpr by (simp add: ReadRecord_body_def Let_def record_type_defs)
  then show ?thesis
    using rep by (simp add: ReadRecord_loop.simps [of crc r])
qed

theorem truncated_tail_is_eof_witness:
  "fst (ReadRecord_loop no_crc (new_Reader short_header_file True False 0) [] False 0 []) = False \<and>
   reported (snd (snd (snd
     (ReadRecord_loop no_crc (new_Reader short_header_file True False 0) [] False 0 [])))) = [] \<and>
   fst (ReadRecord_loop no_crc (new_Reader overrun_tail_file True False 0) [] False 0 []) = False \<and>
   reported (snd (snd (snd
     (ReadRecord_loop no_crc (new_Reader overrun_tail_file True False 0) [] False 0 [])))) = []"
proof -
  have a: "\<not> eof (new_Reader short_header_file True False 0) \<and>
        length (buffer (new_Reader short_header_file True False 0)) < kHeaderSize \<and>
        \<not> failing (the_file (new_Reader short_header_file True False 0)) \<and>
        length (unread (the_file (new_Reader short_header_file True False 0))) < kBlockSize \<and>
        truncated_tail (unread (the_file (new_Reader short_header_file True False 0)))"
    by (simp add: new_Reader_def short_header_file_def kHeaderSize_def kBlockSize_def
        truncated_tail_def)
  have b: "\<not> eof (new_Reader overrun_tail_file True False 0) \<and>
        length (buffer (new_Reader overrun_tail_file True False 0)) < kHeaderSize \<and>
        \<not> failing (the_file (new_Reader overrun_tail_file True False 0)) \<and>
        length (unread (the_file (new_Reader overrun_tail_file True False 0))) < kBlockSize \<and>
        truncated_tail (unread (the_file (new_Reader overrun_tail_file True False 0)))"
    by (simp add: new_Reader_def overrun_tail_file_def kHeaderSize_def kBlockSize_def
        truncated_tail_def stored_length_def)
  show ?thesis
    using truncated_tail_is_eof [OF disjI2 [OF a], of no_crc "[]" False 0 "[]"]
          truncated_tail_is_eof [OF disjI2 [OF b], of no_crc "[]" False 0 "[]"]
    by (simp add: new_Reader_def)
qed

text \<open>
  C8.  The claim has every record of unknown type reported when it lies at or after
  \<open>initial_offset\<close>, and the \<open>default\<close> branch of \<open>ReadRecord\<close> is written to
  report every type it does not know.  But \<open>ReadPhysicalRecord\<close> returns the type
  byte of the record in the same word as the reader's own codes \<open>kEof = 5\<close> and
  \<open>kBadRecord = 6\<close>.  So a record with a sound header and the type byte 5, at or
  after \<open>initial_offset\<close> and with a Reporter, makes \<open>ReadRecord\<close> return false
  as at the end of the file, and one with the type byte 6 is dropped when no
  fragmented record is being assembled; in both cases nothing is reported.
\<close>

theorem record_types_5_and_6_not_reported:
  assumes "reporter r"
    and "kHeaderSize \<le> length (buffer r)"
    and "\<not> bad_length r"
    and "\<not> crc_mismatch crc r"
    and "initial_offset r \<le> physical_record_offset r"
  shows "(buffer r ! 6 = 5 \<longrightarrow>
            ReadRecord_loop crc r scratch in_frag p fragment =
              (False, [], (if in_frag then [] else scratch),
               r\<lparr>buffer := drop (kHeaderSize + stored_length (buffer r)) (buffer r),
                 resyncing := False\<rparr>)) \<and>
         (buffer r ! 6 = 6 \<longrightarrow>
            ReadRecord_body crc r scratch False p fragment =
              Continue
                (r\<lparr>buffer := drop (kHeaderSize + stored_length (buffer r)) (buffer r),
                   resyncing := False\<rparr>)
                scratch False p (take (stored_length (buffer r)) (drop kHeaderSize (buffer r))))"
proof -
  have rpr: "ReadPhysicalRecord crc r fragment =
          (record_type_of (buffer r),
           take (stored_length (buffer r)) (drop kHeaderSize (buffer r)),
           r\<lparr>buffer := drop (kHeaderSize + stored_length (buffer r)) (buffer r)\<rparr>)"
    if "\<not> zero_padding r"
  proof -
    have "\<not> physical_record_offset r < initial_offset r"
      using assms(5) by (simp add: not_less)
    then show ?thesis
      using RPR_well_formed [OF assms(2,3) that assms(4), of fragment] by simp
  qed
  have five: "ReadRecord_loop crc r scratch in_frag p fragment =
              (False, [], (if in_frag then [] else scratch),
               r\<lparr>buffer := drop (kHeaderSize + stored_length (buffer r)) (buffer r),
                 resyncing := False\<rparr>)"
    if t: "buffer r ! 6 = 5"
  proof -
    have ty: "record_type_of (buffer r) = 5" using t by (simp add: record_type_of_def)
    then have "\<not> zero_padding r" by (simp add: zero_padding_def kZeroType_def)
    from rpr [OF this] ty show ?thesis
      by (subst ReadRecord_loop.simps)
         (simp add: ReadRecord_body_def Let_def record_type_defs)
  qed
  have six: "ReadRecord_body crc r scratch False p fragment =
              Continue
                (r\<lparr>buffer := drop (kHeaderSize + stored_length (buffer r)) (buffer r),
                   resyncing := False\<rparr>)
                scratch False p (take (stored_length (buffer r)) (drop kHeaderSize (buffer r)))"
    if t: "buffer r ! 6 = 6"
  proof -
    have ty: "record_type_of (buffer r) = 6" using t by (simp add: record_type_of_def)
    then have "\<not> zero_padding r" by (simp add: zero_padding_def kZeroType_def)
    from rpr [OF this] ty show ?thesis
      by (simp add: ReadRecord_body_def Let_def record_type_defs)
  qed
  show ?thesis using five six by blast
qed

text \<open>
  Two readers that hold one such record in the buffer, and the runs of
  \<open>ReadRecord\<close> over files of two records: after a first record of type 5 the
  second record is never returned and nothing is reported; a first record of type 6
  is dropped without a report; a first record of type 9 is reported.
\<close>

theorem record_types_5_and_6_not_reported_witness:
  "ReadRecord_loop no_crc (tail_reader [0, 0, 0, 0, 1, 0, 5, 0x61] False True 0) [] False 0 [] =
     (False, [], [], tail_reader [] False True 0) \<and>
   ReadRecord_body no_crc (tail_reader [0, 0, 0, 0, 1, 0, 6, 0x61] False True 0) [] False 0 [] =
     Continue (tail_reader [] False True 0) [] False 0 [0x61] \<and>
   fst (ReadRecord no_crc (new_Reader (typed_record_file 5) True False 0) [] []) = False \<and>
   reported (snd (snd (snd (ReadRecord no_crc (new_Reader (typed_record_file 5) True False 0) [] []))))
     = [] \<and>
   fst (snd (ReadRecord no_crc (new_Reader (typed_record_file 6) True False 0) [] [])) = [0x62] \<and>
   reported (snd (snd (snd (ReadRecord no_crc (new_Reader (typed_record_file 6) True False 0) [] []))))
     = [] \<and>
   fst (snd (ReadRecord no_crc (new_Reader (typed_record_file 9) True False 0) [] [])) = [0x62] \<and>
   reported (snd (snd (snd (ReadRecord no_crc (new_Reader (typed_record_file 9) True False 0) [] []))))
     = [(1, Corruption ''unknown record type 9'')]"
proof -
  have h: "reporter (tail_reader [0, 0, 0, 0, 1, 0, t, 0x61] False True 0)"
    "kHeaderSize \<le> length (buffer (tail_reader [0, 0, 0, 0, 1, 0, t, 0x61] False True 0))"
    "\<not> bad_length (tail_reader [0, 0, 0, 0, 1, 0, t, 0x61] False True 0)"
    "\<not> crc_mismatch no_crc (tail_reader [0, 0, 0, 0, 1, 0, t, 0x61] False True 0)"
    "initial_offset (tail_reader [0, 0, 0, 0, 1, 0, t, 0x61] False True 0)
       \<le> physical_record_offset (tail_reader [0, 0, 0, 0, 1, 0, t, 0x61] False True 0)"
    for t
    by (simp_all add: tail_reader_def kHeaderSize_def bad_length_def stored_length_def
        crc_mismatch_def)
  have e: "buffer (tail_reader [0, 0, 0, 0, 1, 0, t, 0x61] False True 0) ! 6 = t"
    "(tail_reader [0, 0, 0, 0, 1, 0, t, 0x61] False True 0)
       \<lparr>buffer := drop (kHeaderSize +
            stored_length (buffer (tail_reader [0, 0, 0, 0, 1, 0, t, 0x61] False True 0)))
            (buffer (tail_reader [0, 0, 0, 0, 1, 0, t, 0x61] False True 0)),
        resyncing := False\<rparr> = tail_reader [] False True 0"
    "take (stored_length (buffer (tail_reader [0, 0, 0, 0, 1, 0, t, 0x61] False True 0)))
       (drop kHeaderSize (buffer (tail_reader [0, 0, 0, 0, 1, 0, t, 0x61] False True 0))) = [0x61]"
    for t
    by (simp_all add: tail_reader_def kHeaderSize_def stored_length_def)
  have nr: "reported (new_Reader f True False 0) = []" for f
    by (simp add: new_Reader_def)
  show ?thesis
    using record_types_5_and_6_not_reported
        [where r = "tail_reader [0, 0, 0, 0, 1, 0, 5, 0x61] False True 0" and crc = no_crc
           and scratch = "[]" and in_frag = False and p = 0 and fragment = "[]",
         OF h(1) h(2) h(3) h(4) h(5)]
      record_types_5_and_6_not_reported
        [where r = "tail_reader [0, 0, 0, 0, 1, 0, 6, 0x61] False True 0" and crc = no_crc
           and scratch = "[]" and in_frag = False and p = 0 and fragment = "[]",
         OF h(1) h(2) h(3) h(4) h(5)]
    by (simp add: e ReadRecord_typed nr)
qed

text \<open>
  C9 at \<open>initial_offset = 32762\<close>, the first byte of the six-byte trailer zone of
  block 0: \<open>SkipToInitialBlock\<close> leaves \<open>end_of_buffer_offset\<close> at 0 and does not
  skip, so the reader starts in block 0 and not at the start of block 1.
\<close>

theorem SkipToInitialBlock_at_32762:
  "SkipToInitialBlock (new_Reader f rep cs 32762) =
     (True, (new_Reader f rep cs 32762)\<lparr>end_of_buffer_offset := 0\<rparr>)"
  by (simp add: SkipToInitialBlock_def new_Reader_def kBlockSize_def Let_def)

text \<open>
  C10.  While the reader is inside a fragmented record whose buffered scratch is
  still empty, a FULL or FIRST fragment reports nothing: the FULL record is returned,
  a FIRST starts a fresh record.  Reading the fragment itself reports nothing either.
  With a non-empty scratch the same fragments go through \<open>ReportCorruption\<close> with
  the length of the scratch and the message "partial record without end".
\<close>

theorem empty_first_fragment_tolerated:
  assumes "ReadPhysicalRecord crc r fragment = (t, frag, r1)"
  shows "(t = kFullType \<longrightarrow>
            ReadRecord_loop crc r [] True p fragment =
              (True, frag, [],
               r1\<lparr>resyncing := False,
                  last_record_offset := end_of_buffer_offset r - of_nat (length (buffer r))\<rparr>)) \<and>
         (t = kFirstType \<longrightarrow>
            ReadRecord_loop crc r [] True p fragment =
              ReadRecord_loop crc (r1\<lparr>resyncing := False\<rparr>) frag True
                (end_of_buffer_offset r - of_nat (length (buffer r))) frag) \<and>
         (t = kFullType \<or> t = kFirstType \<longrightarrow> reported r1 = reported r) \<and>
         (t = kFullType \<and> scratch \<noteq> [] \<longrightarrow>
            ReadRecord_loop crc r scratch True p fragment =
              (True, frag, [],
               (ReportCorruption (r1\<lparr>resyncing := False\<rparr>) (of_nat (length scratch))
                  ''partial record without end(1)'')
                 \<lparr>last_record_offset := end_of_buffer_offset r - of_nat (length (buffer r))\<rparr>)) \<and>
         (t = kFirstType \<and> scratch \<noteq> [] \<longrightarrow>
            ReadRecord_loop crc r scratch True p fragment =
              ReadRecord_loop crc
                (ReportCorruption (r1\<lparr>resyncing := False\<rparr>) (of_nat (length scratch))
                   ''partial record without end(2)'')
                frag True (end_of_buffer_offset r - of_nat (length (buffer r))) frag)"
proof -
  have quiet: "t = kFullType \<or> t = kFirstType \<longrightarrow> reported r1 = reported r"
    using ReadPhysicalRecord_quiet [OF assms] by (auto simp: record_type_defs)
  have full: "t = kFullType \<Longrightarrow>
     ReadRecord_body crc r s True p fragment =
       Return True frag []
         ((if s \<noteq> [] then ReportCorruption (r1\<lparr>resyncing := False\<rparr>) (of_nat (length s))
                                  ''partial record without end(1)''
           else r1\<lparr>resyncing := False\<rparr>)
          \<lparr>last_record_offset := end_of_buffer_offset r - of_nat (length (buffer r))\<rparr>)" for s
    using assms by (simp add: ReadRecord_body_def Let_def record_type_defs)
  have first: "t = kFirstType \<Longrightarrow>
     ReadRecord_body crc r s True p fragment =
       Continue
         (if s \<noteq> [] then ReportCorruption (r1\<lparr>resyncing := False\<rparr>) (of_nat (length s))
                                  ''partial record without end(2)''
          else r1\<lparr>resyncing := False\<rparr>)
         frag True (end_of_buffer_offset r - of_nat (length (buffer r))) frag" for s
    using assms by (simp add: ReadRecord_body_def Let_def record_type_defs)
  show ?thesis
    using quiet full [of "[]"] full [of scratch] first [of "[]"] first [of scratch]
    by (simp add: ReadRecord_loop.simps [of crc r])
qed

theorem empty_first_fragment_tolerated_witness:
  "ReadRecord_loop no_crc (new_Reader full_record_file True False 0) [] True 0 [] =
     (True, [0x61], [],
      (new_Reader full_record_file True False 0)
        \<lparr>the_file := \<lparr>unread = [], failing = False\<rparr>, buffer := [], eof := True,
         end_of_buffer_offset := 8\<rparr>) \<and>
   ReadRecord_loop no_crc (new_Reader full_record_file True False 0) [0x62] True 0 [] =
     (True, [0x61], [],
      (new_Reader full_record_file True False 0)
        \<lparr>the_file := \<lparr>unread = [], failing = False\<rparr>, buffer := [], eof := True,
         end_of_buffer_offset := 8,
         reported := [(1, Corruption ''partial record without end(1)'')]\<rparr>) \<and>
   ReadRecord_loop no_crc (new_Reader first_record_file True False 0) [] True 0 [] =
     ReadRecord_loop no_crc
       ((new_Reader first_record_file True False 0)
          \<lparr>the_file := \<lparr>unread = [], failing = False\<rparr>, buffer := [], eof := True,
           end_of_buffer_offset := 8\<rparr>)
       [0x61] True 0 [0x61] \<and>
   ReadRecord_loop no_crc (new_Reader first_record_file True False 0) [0x62] True 0 [] =
     ReadRecord_loop no_crc
       ((new_Reader first_record_file True False 0)
          \<lparr>the_file := \<lparr>unread = [], failing = False\<rparr>, buffer := [], eof := True,
           end_of_buffer_offset := 8,
           reported := [(1, Corruption ''partial record without end(2)'')]\<rparr>)
       [0x61] True 0 [0x61]"
  using empty_first_fragment_tolerated
          [OF RPR_full_record [of no_crc], where p = 0 and scratch = "[0x62]"]
        empty_first_fragment_tolerated
          [OF RPR_first_record [of no_crc], where p = 0 and scratch = "[0x62]"]
  by (simp add: new_Reader_def ReportCorruption_def ReportDrop_def record_type_defs)

section \<open>util/cache.cc\<close>

text \<open>
  An \<open>LRUHandle\<close> is heap-allocated and reached through pointers.  The model
  keeps the handles in a store from addresses to handles; \<open>None\<close> is memory that
  is not allocated.  The pointer fields \<open>next\<close>, \<open>prev\<close> and \<open>next_hash\<close>
  are the order of the lists below, and the deleter is recorded by its calls (see
  \<open>deleted\<close>).  \<open>value\<close> is an opaque pointer, here a number, and
  \<open>key_data\<close> holds the \<open>key_length\<close> bytes of the key.
\<close>

record LRUHandle =
  value_ptr :: nat
  charge :: u64
  key_data :: bytes
  refs :: u32
  hash :: u32

type_synonym handle_heap = "nat \<Rightarrow> LRUHandle option"

text \<open>
  \<open>HandleTable\<close>: \<open>bucket_count\<close> is \<open>length_\<close>, \<open>elems\<close> is
  \<open>elems_\<close>, and \<open>buckets\<close> is \<open>list_\<close>, each bucket being its chain of
  handles in \<open>next_hash\<close> order.  Both counters stay far below \<open>2^32\<close> for
  any table that fits in memory and are natural numbers.
\<close>

record HandleTable =
  bucket_count :: nat
  elems :: nat
  buckets :: "nat list list"

text \<open>
  \<open>FindPointer\<close> returns a pointer to the slot that holds the match, or to the
  trailing slot of the chain: here the bucket and the position in its chain, the
  length of the chain being the trailing slot.  \<open>slot\<close> reads the slot.
\<close>

definition matches :: "handle_heap \<Rightarrow> bytes \<Rightarrow> u32 \<Rightarrow> nat \<Rightarrow> bool" where
  "matches hp k h a = (case hp a of None \<Rightarrow> False | Some e \<Rightarrow> hash e = h \<and> key_data e = k)"

fun chain_find :: "handle_heap \<Rightarrow> bytes \<Rightarrow> u32 \<Rightarrow> nat list \<Rightarrow> nat" where
  "chain_find hp k h [] = 0"
| "chain_find hp k h (a # as) = (if matches hp k h a then 0 else Suc (chain_find hp k h as))"

definition bucket_of :: "nat \<Rightarrow> u32 \<Rightarrow> nat" where
  "bucket_of n h = unat (h AND (of_nat n - 1))"

definition FindPointer :: "handle_heap \<Rightarrow> HandleTable \<Rightarrow> bytes \<Rightarrow> u32 \<Rightarrow> nat \<times> nat" where
  "FindPointer hp t k h =
     (let i = bucket_of (bucket_count t) h in (i, chain_find hp k h (buckets t ! i)))"

definition slot :: "HandleTable \<Rightarrow> nat \<times> nat \<Rightarrow> nat option" where
  "slot t p = (case p of (i, j) \<Rightarrow>
     if j < length (buckets t ! i) then Some (buckets t ! i ! j) else None)"

definition table_Lookup :: "handle_heap \<Rightarrow> HandleTable \<Rightarrow> bytes \<Rightarrow> u32 \<Rightarrow> nat option" where
  "table_Lookup hp t k h = slot t (FindPointer hp t k h)"

text \<open>
  \<open>Resize\<close>: the loop that doubles \<open>new_length\<close> from 4, then every handle of
  every old chain, in order, is pushed onto the front of its new chain.  The test
  \<open>0 < new_length\<close> holds throughout and only makes the termination plain.
\<close>

function new_length_loop :: "nat \<Rightarrow> nat \<Rightarrow> nat" where
  "new_length_loop new_length n =
     (if 0 < new_length \<and> new_length < n then new_length_loop (new_length * 2) n
      else new_length)"
  by pat_completeness auto
termination
  by (relation "measure (\<lambda>(new_length, n). n - new_length)") auto

declare new_length_loop.simps [simp del]

definition rehash :: "handle_heap \<Rightarrow> nat \<Rightarrow> nat \<Rightarrow> nat list list \<Rightarrow> nat list list" where
  "rehash hp new_length a new_list =
     (case hp a of
        None \<Rightarrow> new_list
      | Some e \<Rightarrow>
          (let i = bucket_of new_length (hash e) in new_list[i := a # new_list ! i]))"

definition Resize :: "handle_heap \<Rightarrow> HandleTable \<Rightarrow> HandleTable" where
  "Resize hp t =
     (let new_length = new_length_loop 4 (elems t);
          new_list = fold (rehash hp new_length) (concat (buckets t)) (replicate new_length [])
      in t\<lparr>buckets := new_list, bucket_count := new_length\<rparr>)"

text \<open>The constructor: an empty table, resized once.\<close>

definition new_HandleTable :: HandleTable where
  "new_HandleTable = Resize (\<lambda>a. None) \<lparr>bucket_count = 0, elems = 0, buckets = []\<rparr>"

text \<open>
  \<open>HandleTable::Insert\<close> and \<open>HandleTable::Remove\<close> return the new table and
  the old or removed handle (\<open>None\<close> for \<open>NULL\<close>).
\<close>

definition table_Insert :: "handle_heap \<Rightarrow> HandleTable \<Rightarrow> nat \<Rightarrow> HandleTable \<times> nat option" where
  "table_Insert hp t h =
     (case hp h of
        None \<Rightarrow> (t, None)
      | Some e \<Rightarrow>
          (let (i, j) = FindPointer hp t (key_data e) (hash e);
               old = slot t (i, j);
               chain = buckets t ! i;
               chain = (if j < length chain then chain[j := h] else chain @ [h]);
               t = t\<lparr>buckets := (buckets t)[i := chain]\<rparr>
           in if old = None then
                (let t = t\<lparr>elems := elems t + 1\<rparr>
                 in (if elems t > bucket_count t then Resize hp t else t, old))
              else (t, old)))"

definition table_Remove :: "handle_heap \<Rightarrow> HandleTable \<Rightarrow> bytes \<Rightarrow> u32 \<Rightarrow> HandleTable \<times> nat option" where
  "table_Remove hp t k h =
     (let (i, j) = FindPointer hp t k h;
          result = slot t (i, j)
      in if result \<noteq> None then
           (let chain = buckets t ! i;
                chain = take j chain @ drop (Suc j) chain
            in (t\<lparr>buckets := (buckets t)[i := chain], elems := elems t - 1\<rparr>, result))
         else (t, result))"

text \<open>
  One shard.  \<open>lru\<close> is the circular list \<open>lru_\<close> from \<open>lru_.next\<close>, the
  oldest entry, to \<open>lru_.prev\<close>, the newest.  \<open>usage\<close> and the charges are
  \<open>size_t\<close> and wrap.  \<open>next_handle\<close> is the address \<open>malloc\<close> returns
  next, and \<open>deleted\<close> lists the calls of the deleters with key and value.  The
  mutex is not modelled: each operation runs under it from start to end.
\<close>

record LRUCache =
  capacity :: u64
  usage :: u64
  lru :: "nat list"
  table :: HandleTable
  heap :: handle_heap
  next_handle :: nat
  deleted :: "(bytes \<times> nat) list"

definition new_LRUCache :: "u64 \<Rightarrow> LRUCache" where
  "new_LRUCache cap =
     \<lparr>capacity = cap, usage = 0, lru = [], table = new_HandleTable, heap = (\<lambda>a. None),
      next_handle = 0, deleted = []\<rparr>"

text \<open>
  \<open>Unref\<close>, \<open>LRU_Remove\<close> and \<open>LRU_Append\<close>.  Unlinking a handle that
  is on the list removes it from the list; \<open>refs\<close> is unsigned, so
  \<open>refs <= 0\<close> is \<open>refs = 0\<close>.
\<close>

definition Unref :: "nat \<Rightarrow> LRUCache \<Rightarrow> LRUCache" where
  "Unref e c =
     (case heap c e of
        None \<Rightarrow> c
      | Some h \<Rightarrow>
          (let h = h\<lparr>refs := refs h - 1\<rparr>
           in if refs h \<le> 0
              then c\<lparr>usage := usage c - charge h,
                     deleted := deleted c @ [(key_data h, value_ptr h)],
                     heap := (heap c)(e := None)\<rparr>
              else c\<lparr>heap := (heap c)(e \<mapsto> h)\<rparr>))"

definition LRU_Remove :: "nat \<Rightarrow> LRUCache \<Rightarrow> LRUCache" where
  "LRU_Remove e c = c\<lparr>lru := remove1 e (lru c)\<rparr>"

definition LRU_Append :: "nat \<Rightarrow> LRUCache \<Rightarrow> LRUCache" where
  "LRU_Append e c = c\<lparr>lru := lru c @ [e]\<rparr>"

text \<open>
  \<open>Lookup\<close>, \<open>Release\<close>, \<open>Insert\<close>, \<open>Erase\<close> and \<open>Prune\<close>
  return the handle, where there is one, and the new state of the shard.  The
  \<open>while\<close> loop at the end of \<open>Insert\<close> is \<open>evict_loop\<close>, with
  \<open>evict_one\<close> its body; the body of the loop of \<open>Prune\<close> is
  \<open>prune_one\<close>, run over the list as it is when \<open>Prune\<close> starts.
\<close>

definition Lookup :: "bytes \<Rightarrow> u32 \<Rightarrow> LRUCache \<Rightarrow> nat option \<times> LRUCache" where
  "Lookup k h c =
     (case table_Lookup (heap c) (table c) k h of
        None \<Rightarrow> (None, c)
      | Some e \<Rightarrow>
          (let c = (case heap c e of
                      None \<Rightarrow> c
                    | Some x \<Rightarrow> c\<lparr>heap := (heap c)(e \<mapsto> x\<lparr>refs := refs x + 1\<rparr>)\<rparr>);
               c = LRU_Remove e c;
               c = LRU_Append e c
           in (Some e, c)))"

definition Release :: "nat \<Rightarrow> LRUCache \<Rightarrow> LRUCache" where
  "Release handle c = Unref handle c"

definition evict_one :: "LRUCache \<Rightarrow> LRUCache" where
  "evict_one c =
     (let old = hd (lru c);
          c = LRU_Remove old c;
          c = (case heap c old of
                 None \<Rightarrow> c
               | Some x \<Rightarrow> c\<lparr>table := fst (table_Remove (heap c) (table c) (key_data x) (hash x))\<rparr>)
      in Unref old c)"

function evict_loop :: "LRUCache \<Rightarrow> LRUCache" where
  "evict_loop c =
     (if usage c > capacity c \<and> lru c \<noteq> [] then evict_loop (evict_one c) else c)"
  by pat_completeness auto

termination
proof (relation "measure (\<lambda>c. length (lru c))")
  show "wf (measure (\<lambda>c. length (lru c)))" by simp
next
  fix c :: LRUCache
  assume a: "usage c > capacity c \<and> lru c \<noteq> []"
  have "lru (Unref e d) = lru d" for e d
    by (simp add: Unref_def Let_def split: option.splits)
  then have "lru (evict_one c) = remove1 (hd (lru c)) (lru c)"
    by (simp add: evict_one_def Let_def LRU_Remove_def split: option.splits)
  also have "\<dots> = tl (lru c)" using a by (cases "lru c") auto
  finally show "(evict_one c, c) \<in> measure (\<lambda>c. length (lru c))" using a by simp
qed

declare evict_loop.simps [simp del]

definition Insert :: "bytes \<Rightarrow> u32 \<Rightarrow> nat \<Rightarrow> u64 \<Rightarrow> LRUCache \<Rightarrow> nat \<times> LRUCache" where
  "Insert k h v ch c =
     (let e = next_handle c;
          c = c\<lparr>heap := (heap c)(e \<mapsto> \<lparr>value_ptr = v, charge = ch, key_data = k, refs = 2, hash = h\<rparr>),
                next_handle := Suc e\<rparr>;
          c = LRU_Append e c;
          c = c\<lparr>usage := usage c + ch\<rparr>;
          (t, old) = table_Insert (heap c) (table c) e;
          c = c\<lparr>table := t\<rparr>;
          c = (case old of None \<Rightarrow> c | Some old \<Rightarrow> Unref old (LRU_Remove old c))
      in (e, evict_loop c))"

definition Erase :: "bytes \<Rightarrow> u32 \<Rightarrow> LRUCache \<Rightarrow> LRUCache" where
  "Erase k h c =
     (let (t, e) = table_Remove (heap c) (table c) k h;
          c = c\<lparr>table := t\<rparr>
      in case e of None \<Rightarrow> c | Some e \<Rightarrow> Unref e (LRU_Remove e c))"

definition prune_one :: "nat \<Rightarrow> LRUCache \<Rightarrow> LRUCache" where
  "prune_one e c =
     (case heap c e of
        None \<Rightarrow> c
      | Some x \<Rightarrow>
          if refs x = 1 then
            (let c = c\<lparr>table := fst (table_Remove (heap c) (table c) (key_data x) (hash x))\<rparr>;
                 c = LRU_Remove e c
             in Unref e c)
          else c)"

definition Prune :: "LRUCache \<Rightarrow> LRUCache" where
  "Prune c = fold prune_one (lru c) c"

definition TotalCharge :: "LRUCache \<Rightarrow> u64" where
  "TotalCharge c = usage c"

text \<open>
  The sum of the charges of the entries on the list, for comparison with
  \<open>usage\<close>.
\<close>

definition list_charge :: "LRUCache \<Rightarrow> u64" where
  "list_charge c =
     sum_list (map (\<lambda>a. case heap c a of None \<Rightarrow> 0 | Some x \<Rightarrow> charge x) (lru c))"

text \<open>
  Two runs from an empty shard of capacity 1: the entry A (key "A", hash 1, charge
  1) is inserted and its handle kept; then the entry B (key "B", hash 2, charge 1)
  is inserted.
\<close>

definition cache_A :: LRUCache where
  "cache_A = snd (Insert [0x41] 1 0 1 (new_LRUCache 1))"

definition cache_AB :: LRUCache where
  "cache_AB = snd (Insert [0x42] 2 0 1 cache_A)"

lemma new_HandleTable_eval:
  "new_HandleTable = \<lparr>bucket_count = 4, elems = 0, buckets = [[], [], [], []]\<rparr>"
  by (simp add: new_HandleTable_def Resize_def new_length_loop.simps numeral_eq_Suc)

lemma cache_A_eval:
  "cache_A =
     \<lparr>capacity = 1, usage = 1, lru = [0],
      table = \<lparr>bucket_count = 4, elems = 1, buckets = [[], [0], [], []]\<rparr>,
      heap = (\<lambda>a. None)(0 \<mapsto> \<lparr>value_ptr = 0, charge = 1, key_data = [0x41], refs = 2, hash = 1\<rparr>),
      next_handle = 1, deleted = []\<rparr>"
  by (simp add: cache_A_def Insert_def new_LRUCache_def new_HandleTable_eval LRU_Append_def
      table_Insert_def FindPointer_def bucket_of_def slot_def matches_def Let_def
      evict_loop.simps)

lemma cache_AB_eval:
  "cache_AB =
     \<lparr>capacity = 1, usage = 2, lru = [],
      table = \<lparr>bucket_count = 4, elems = 0, buckets = [[], [], [], []]\<rparr>,
      heap = ((\<lambda>a. None)(0 \<mapsto> \<lparr>value_ptr = 0, charge = 1, key_data = [0x41], refs = 1, hash = 1\<rparr>))
               (1 \<mapsto> \<lparr>value_ptr = 0, charge = 1, key_data = [0x42], refs = 1, hash = 2\<rparr>),
      next_handle = 2, deleted = []\<rparr>"
  apply (simp add: cache_AB_def cache_A_eval Insert_def LRU_Append_def
      table_Insert_def FindPointer_def bucket_of_def slot_def matches_def Let_def)
  apply (subst evict_loop.simps)
  apply (simp add: evict_one_def LRU_Remove_def table_Remove_def FindPointer_def bucket_of_def
      slot_def matches_def Unref_def Let_def)
  apply (subst evict_loop.simps)
  apply (simp add: evict_one_def LRU_Remove_def table_Remove_def FindPointer_def bucket_of_def
      slot_def matches_def Unref_def Let_def)
  apply (subst evict_loop.simps)
  apply (simp add: fun_upd_twist)
  done

lemma lru_Unref [simp]: "lru (Unref e c) = lru c"
  by (simp add: Unref_def Let_def split: option.splits)

lemma capacity_Unref [simp]: "capacity (Unref e c) = capacity c"
  by (simp add: Unref_def Let_def split: option.splits)

lemma heap_Unref_other: "a \<noteq> e \<Longrightarrow> heap (Unref e c) a = heap c a"
  by (simp add: Unref_def Let_def split: option.splits)

lemma lru_evict_one: "lru c \<noteq> [] \<Longrightarrow> lru (evict_one c) = tl (lru c)"
  by (cases "lru c") (auto simp: evict_one_def Let_def LRU_Remove_def split: option.splits)

lemma capacity_evict_one [simp]: "capacity (evict_one c) = capacity c"
  by (simp add: evict_one_def Let_def LRU_Remove_def split: option.splits)

lemma heap_evict_one_other: "a \<noteq> hd (lru c) \<Longrightarrow> heap (evict_one c) a = heap c a"
  by (simp add: evict_one_def Let_def LRU_Remove_def heap_Unref_other split: option.splits)

lemma evict_loop_suffix: "\<exists>k. lru (evict_loop c) = drop k (lru c)"
proof (induction c rule: evict_loop.induct)
  case (1 c)
  show ?case
  proof (cases "usage c > capacity c \<and> lru c \<noteq> []")
    case True
    then obtain k where "lru (evict_loop (evict_one c)) = drop k (lru (evict_one c))"
      using 1 by blast
    then have "lru (evict_loop c) = drop (Suc k) (lru c)"
      using True by (subst evict_loop.simps) (simp add: lru_evict_one drop_Suc)
    then show ?thesis by blast
  next
    case False
    then have "lru (evict_loop c) = drop 0 (lru c)"
      by (subst evict_loop.simps) auto
    then show ?thesis by blast
  qed
qed

lemma evict_loop_done:
  "capacity (evict_loop c) = capacity c \<and>
   (usage (evict_loop c) \<le> capacity c \<or> lru (evict_loop c) = [])"
proof (induction c rule: evict_loop.induct)
  case (1 c)
  show ?case
  proof (cases "usage c > capacity c \<and> lru c \<noteq> []")
    case True
    then show ?thesis using 1 by (subst (1 2 3) evict_loop.simps) simp
  next
    case False
    then show ?thesis by (subst (1 2 3) evict_loop.simps) auto
  qed
qed

lemma evict_loop_heap_other: "a \<notin> set (lru c) \<Longrightarrow> heap (evict_loop c) a = heap c a"
proof (induction c rule: evict_loop.induct)
  case (1 c)
  show ?case
  proof (cases "usage c > capacity c \<and> lru c \<noteq> []")
    case True
    then have ne: "a \<noteq> hd (lru c)" and nt: "a \<notin> set (lru (evict_one c))"
      using "1.prems" by (auto simp: lru_evict_one dest: list.set_sel(2))
    have "heap (evict_loop c) a = heap (evict_loop (evict_one c)) a"
      using True by (subst evict_loop.simps) simp
    also have "\<dots> = heap (evict_one c) a" using "1.IH" [OF True nt] .
    also have "\<dots> = heap c a" using ne by (rule heap_evict_one_other)
    finally show ?thesis .
  next
    case False
    then show ?thesis by (subst evict_loop.simps) auto
  qed
qed

lemma refs_pinned: "2 \<le> (r::u32) \<Longrightarrow> \<not> r - 1 \<le> 0"
proof
  assume a: "2 \<le> r" and "r - 1 \<le> 0"
  then have "r - 1 = 0" by simp
  then have "r = 1" by simp
  with a have "(2::u32) \<le> 1" by simp
  then show False by (simp add: word_le_nat_alt)
qed

section \<open>The invariant of a cache shard\<close>

text \<open>
  The entries of the hash table are the handles on its chains.  Two handles have
  the same key when their keys and hashes agree.  A table is well formed when
  its bucket array has \<open>bucket_count\<close> chains, no handle is on two chains or
  twice on one, every handle on chain \<open>i\<close> is allocated and hashes to \<open>i\<close>,
  and no two entries have the same key.
\<close>

definition table_entries :: "HandleTable \<Rightarrow> nat set" where
  "table_entries t = set (concat (buckets t))"

definition same_key :: "handle_heap \<Rightarrow> nat \<Rightarrow> nat \<Rightarrow> bool" where
  "same_key hp a b \<longleftrightarrow>
     (case (hp a, hp b) of
        (Some x, Some y) \<Rightarrow> key_data x = key_data y \<and> hash x = hash y
      | _ \<Rightarrow> False)"

definition table_ok :: "handle_heap \<Rightarrow> HandleTable \<Rightarrow> bool" where
  "table_ok hp t \<longleftrightarrow>
     length (buckets t) = bucket_count t \<and> 0 < bucket_count t \<and>
     distinct (concat (buckets t)) \<and>
     (\<forall>i < bucket_count t. \<forall>a \<in> set (buckets t ! i).
        \<exists>x. hp a = Some x \<and> bucket_of (bucket_count t) (hash x) = i) \<and>
     (\<forall>a \<in> table_entries t. \<forall>b \<in> table_entries t. same_key hp a b \<longrightarrow> a = b)"

text \<open>
  \<open>total_charge\<close> is the sum of the charges of the handles that are allocated and
  not yet freed; handles are allocated in order, so all of them are below
  \<open>next_handle\<close>.
\<close>

definition charge_at :: "handle_heap \<Rightarrow> nat \<Rightarrow> u64" where
  "charge_at hp a = (case hp a of None \<Rightarrow> 0 | Some x \<Rightarrow> charge x)"

definition total_charge :: "LRUCache \<Rightarrow> u64" where
  "total_charge c = sum (charge_at (heap c)) {..<next_handle c}"

text \<open>
  The invariant of a shard, relative to the handles \<open>held\<close> by the clients (one
  element per reference handed out by \<open>Insert\<close> or \<open>Lookup\<close> and not yet
  released) and to a reference \<open>pending\<close> that an operation is about to drop
  with \<open>Unref\<close>: the list has no duplicates; the table is well formed and its
  entries are the handles on the list; \<open>refs\<close> of an allocated handle is one for
  the list, if it is on it, plus the references held and pending, and is not zero;
  a freed handle is neither on the list nor held; \<open>usage\<close> is \<open>total_charge\<close>.
\<close>

definition shard_inv :: "nat option \<Rightarrow> LRUCache \<Rightarrow> nat list \<Rightarrow> bool" where
  "shard_inv pending c held \<longleftrightarrow>
     distinct (lru c) \<and>
     table_ok (heap c) (table c) \<and> table_entries (table c) = set (lru c) \<and>
     (\<forall>a. heap c a \<noteq> None \<longrightarrow> a < next_handle c) \<and>
     (\<forall>a x. heap c a = Some x \<longrightarrow>
        unat (refs x) = (if a \<in> set (lru c) then 1 else 0) + count_list held a +
                        (if pending = Some a then 1 else 0) \<and>
        0 < unat (refs x)) \<and>
     (\<forall>a. heap c a = None \<longrightarrow> a \<notin> set (lru c) \<and> a \<notin> set held \<and> pending \<noteq> Some a) \<and>
     (\<forall>a. count_list held a < 2 ^ 32 - 1) \<and>
     usage c = total_charge c"

text \<open>
  The states of a shard reachable from an empty shard by \<open>Insert\<close>, \<open>Lookup\<close>,
  \<open>Release\<close>, \<open>Erase\<close> and \<open>Prune\<close>, together with the handles held by the
  clients.  \<open>Release\<close> is called on a handle that is held, and \<open>Lookup\<close>
  hands out a handle while fewer than \<open>2 ^ 32 - 2\<close> are held, so that the 32-bit
  \<open>refs\<close> does not wrap around.
\<close>

inductive reachable :: "LRUCache \<Rightarrow> nat list \<Rightarrow> bool" where
  init: "reachable (new_LRUCache cap) []"
| insert: "reachable c held \<Longrightarrow> Insert k h v ch c = (e, c') \<Longrightarrow> reachable c' (e # held)"
| lookup_hit: "reachable c held \<Longrightarrow> length held < 2 ^ 32 - 2 \<Longrightarrow>
     Lookup k h c = (Some e, c') \<Longrightarrow> reachable c' (e # held)"
| lookup_miss: "reachable c held \<Longrightarrow> Lookup k h c = (None, c') \<Longrightarrow> reachable c' held"
| release: "reachable c held \<Longrightarrow> e \<in> set held \<Longrightarrow> reachable (Release e c) (remove1 e held)"
| erase: "reachable c held \<Longrightarrow> reachable (Erase k h c) held"
| prune: "reachable c held \<Longrightarrow> reachable (Prune c) held"

text \<open>
  The state in which \<open>Insert\<close> reaches its eviction loop: the new entry is
  allocated, appended to the list, charged and put in the table, and an entry it
  replaces there is taken off the list and unreferenced.  \<open>Insert\<close> returns the
  new handle and the result of \<open>evict_loop\<close> on this state.
\<close>

definition before_eviction :: "bytes \<Rightarrow> u32 \<Rightarrow> nat \<Rightarrow> u64 \<Rightarrow> LRUCache \<Rightarrow> LRUCache" where
  "before_eviction k h v ch c =
     (let e = next_handle c;
          c = c\<lparr>heap := (heap c)(e \<mapsto> \<lparr>value_ptr = v, charge = ch, key_data = k, refs = 2, hash = h\<rparr>),
                next_handle := Suc e\<rparr>;
          c = LRU_Append e c;
          c = c\<lparr>usage := usage c + ch\<rparr>;
          (t, old) = table_Insert (heap c) (table c) e;
          c = c\<lparr>table := t\<rparr>
      in case old of None \<Rightarrow> c | Some old \<Rightarrow> Unref old (LRU_Remove old c))"

subsection \<open>The hash table\<close>

lemma bucket_of_less: "0 < n \<Longrightarrow> bucket_of n h < n"
proof -
  assume n: "0 < n"
  have "h AND (of_nat n - 1) \<le> of_nat n - 1" by (rule word_and_le1)
  then have le: "bucket_of n h \<le> unat (of_nat n - 1 :: u32)"
    by (simp add: bucket_of_def word_le_nat_alt)
  show ?thesis
  proof (cases "n < 2 ^ 32")
    case True
    then have "unat (of_nat n :: u32) = n" by (simp add: unat_of_nat)
    moreover have "(1 :: u32) \<le> of_nat n"
      using n True by (simp add: word_le_nat_alt unat_of_nat)
    ultimately have "unat (of_nat n - 1 :: u32) = n - 1" by (simp add: unat_sub)
    with le n show ?thesis by simp
  next
    case False
    have "unat (of_nat n - 1 :: u32) < 2 ^ 32" using unsigned_less [of "of_nat n - 1 :: u32"] by simp
    with le False show ?thesis by simp
  qed
qed

lemma chain_find_le: "chain_find hp k h c \<le> length c"
  by (induction c) auto

lemma chain_find_match:
  "chain_find hp k h c < length c \<Longrightarrow> matches hp k h (c ! chain_find hp k h c)"
  by (induction c) auto

lemma chain_find_none:
  "chain_find hp k h c = length c \<Longrightarrow> a \<in> set c \<Longrightarrow> \<not> matches hp k h a"
  by (induction c) (auto split: if_splits)

lemma chain_find_first:
  "a \<in> set c \<Longrightarrow> matches hp k h a \<Longrightarrow> chain_find hp k h c < length c"
  by (induction c) auto

lemma concat_split:
  "i < length xs \<Longrightarrow> concat xs = concat (take i xs) @ xs ! i @ concat (drop (Suc i) xs)"
  by (metis append_Cons append_Nil concat.simps(2) concat_append id_take_nth_drop)

lemma concat_update:
  "i < length xs \<Longrightarrow>
   concat (xs[i := c]) = concat (take i xs) @ c @ concat (drop (Suc i) xs)"
  by (simp add: upd_conv_take_nth_drop)

lemma in_bucket_entries:
  "i < length (buckets t) \<Longrightarrow> a \<in> set (buckets t ! i) \<Longrightarrow> a \<in> table_entries t"
  by (auto simp: table_entries_def)

lemma entries_bucket:
  "a \<in> table_entries t \<Longrightarrow> \<exists>i < length (buckets t). a \<in> set (buckets t ! i)"
proof -
  assume "a \<in> table_entries t"
  then obtain c where "c \<in> set (buckets t)" "a \<in> set c" by (auto simp: table_entries_def)
  then show ?thesis by (metis in_set_conv_nth)
qed

lemma table_ok_bucket:
  assumes "table_ok hp t" and "a \<in> table_entries t"
  shows "\<exists>x. hp a = Some x \<and> a \<in> set (buckets t ! bucket_of (bucket_count t) (hash x))"
proof -
  obtain i where i: "i < length (buckets t)" "a \<in> set (buckets t ! i)"
    using entries_bucket [OF assms(2)] by blast
  with assms(1) obtain x where "hp a = Some x" "bucket_of (bucket_count t) (hash x) = i"
    by (auto simp: table_ok_def)
  with i show ?thesis by auto
qed

lemma table_Lookup_in:
  assumes "table_ok hp t" and "table_Lookup hp t k h = Some a"
  shows "a \<in> table_entries t"
proof -
  let ?i = "bucket_of (bucket_count t) h"
  have i: "?i < length (buckets t)" using assms(1) by (simp add: table_ok_def bucket_of_less)
  from assms(2) have "a \<in> set (buckets t ! ?i)"
    by (auto simp: table_Lookup_def FindPointer_def slot_def Let_def split: if_splits)
  with i show ?thesis by (rule in_bucket_entries)
qed

lemma entries_update:
  assumes ok: "table_ok hp t" and i: "i < bucket_count t"
  shows "table_entries (t\<lparr>buckets := (buckets t)[i := c]\<rparr>) =
           (table_entries t - set (buckets t ! i)) \<union> set c"
proof -
  have len: "i < length (buckets t)" using ok i by (simp add: table_ok_def)
  have d: "distinct (concat (take i (buckets t)) @ buckets t ! i @ concat (drop (Suc i) (buckets t)))"
    using ok concat_split [OF len] by (simp add: table_ok_def)
  have old: "table_entries t =
      set (concat (take i (buckets t))) \<union> set (buckets t ! i) \<union>
      set (concat (drop (Suc i) (buckets t)))"
    unfolding table_entries_def by (subst concat_split [OF len]) (simp add: Un_assoc)
  have new: "table_entries (t\<lparr>buckets := (buckets t)[i := c]\<rparr>) =
      set (concat (take i (buckets t))) \<union> set c \<union> set (concat (drop (Suc i) (buckets t)))"
    unfolding table_entries_def by (simp add: concat_update [OF len] Un_assoc)
  from d have "set (concat (take i (buckets t))) \<inter> set (buckets t ! i) = {}"
    "set (buckets t ! i) \<inter> set (concat (drop (Suc i) (buckets t))) = {}"
    by auto
  then show ?thesis unfolding old new by blast
qed

lemma table_ok_update:
  assumes ok: "table_ok hp t" and i: "i < bucket_count t"
    and dc: "distinct c"
    and mem: "\<forall>a \<in> set c. a \<in> set (buckets t ! i) \<or>
               a \<notin> table_entries t \<and> (\<exists>x. hp a = Some x \<and> bucket_of (bucket_count t) (hash x) = i)"
    and uniq: "\<forall>a \<in> (table_entries t - set (buckets t ! i)) \<union> set c.
               \<forall>b \<in> (table_entries t - set (buckets t ! i)) \<union> set c. same_key hp a b \<longrightarrow> a = b"
  shows "table_ok hp (t\<lparr>buckets := (buckets t)[i := c]\<rparr>)"
proof -
  have len: "i < length (buckets t)" using ok i by (simp add: table_ok_def)
  let ?A = "concat (take i (buckets t))" and ?B = "concat (drop (Suc i) (buckets t))"
  have d: "distinct (?A @ buckets t ! i @ ?B)"
    using ok concat_split [OF len] by (simp add: table_ok_def)
  have old: "table_entries t = set ?A \<union> set (buckets t ! i) \<union> set ?B"
    unfolding table_entries_def by (subst concat_split [OF len]) (simp add: Un_assoc)
  have disj: "set c \<inter> (set ?A \<union> set ?B) = {}"
  proof -
    have "a \<notin> set ?A \<union> set ?B" if "a \<in> set c" for a
    proof -
      from mem that have "a \<in> set (buckets t ! i) \<or> a \<notin> table_entries t" by blast
      then show ?thesis using d old by auto
    qed
    then show ?thesis by blast
  qed
  have T2: "distinct (concat ((buckets t)[i := c]))"
    using d dc disj by (simp add: concat_update [OF len]) blast
  have T3: "\<forall>j < bucket_count t. \<forall>a \<in> set ((buckets t)[i := c] ! j).
        \<exists>x. hp a = Some x \<and> bucket_of (bucket_count t) (hash x) = j"
  proof (intro allI impI ballI)
    fix j a
    assume j: "j < bucket_count t" and a: "a \<in> set ((buckets t)[i := c] ! j)"
    show "\<exists>x. hp a = Some x \<and> bucket_of (bucket_count t) (hash x) = j"
    proof (cases "j = i")
      case True
      then have "a \<in> set c" using a len by simp
      with mem have "a \<in> set (buckets t ! i) \<or>
          (\<exists>x. hp a = Some x \<and> bucket_of (bucket_count t) (hash x) = i)" by blast
      then show ?thesis using ok i True by (auto simp: table_ok_def)
    next
      case False
      then have "a \<in> set (buckets t ! j)" using a by simp
      then show ?thesis using ok j by (auto simp: table_ok_def)
    qed
  qed
  show ?thesis
    unfolding table_ok_def
    using ok T2 T3 uniq entries_update [OF ok i, of c]
    by (simp add: table_ok_def)
qed

lemma table_ok_elems [simp]: "table_ok hp (t\<lparr>elems := n\<rparr>) = table_ok hp t"
  by (simp add: table_ok_def table_entries_def)

lemma table_entries_elems [simp]: "table_entries (t\<lparr>elems := n\<rparr>) = table_entries t"
  by (simp add: table_entries_def)

lemma matches_same_key:
  "matches hp k h a \<Longrightarrow> matches hp k h b \<Longrightarrow> same_key hp a b"
  by (auto simp: matches_def same_key_def split: option.splits)

lemma matches_self: "hp a = Some x \<Longrightarrow> matches hp (key_data x) (hash x) a"
  by (simp add: matches_def)

lemma same_key_matches:
  "hp e = Some x \<Longrightarrow> same_key hp e b \<Longrightarrow> matches hp (key_data x) (hash x) b"
  by (auto simp: matches_def same_key_def split: option.splits)

lemma same_key_sym: "same_key hp a b \<Longrightarrow> same_key hp b a"
  by (auto simp: same_key_def split: option.splits)

lemma matches_bucket:
  assumes "table_ok hp t" and "b \<in> table_entries t" and "matches hp k h b"
  shows "b \<in> set (buckets t ! bucket_of (bucket_count t) h)"
  using table_ok_bucket [OF assms(1,2)] assms(3)
  by (auto simp: matches_def split: option.splits)

lemma drop_nth_distinct:
  "distinct c \<Longrightarrow> j < length c \<Longrightarrow>
   distinct (take j c @ drop (Suc j) c) \<and> set (take j c @ drop (Suc j) c) = set c - {c ! j}"
proof (induction c arbitrary: j)
  case Nil
  then show ?case by simp
next
  case (Cons a c)
  show ?case
  proof (cases j)
    case 0
    with Cons.prems show ?thesis by auto
  next
    case (Suc j')
    with Cons.prems have "distinct c" "j' < length c" by auto
    from Cons.IH [OF this] Cons.prems Suc show ?thesis
      by (auto dest: in_set_takeD in_set_dropD)
  qed
qed

lemma table_Remove_spec:
  assumes ok: "table_ok hp t" and rm: "table_Remove hp t k h = (t', r)"
  shows "table_ok hp t' \<and> table_entries t' = table_entries t - set_option r \<and>
         (\<forall>a. r = Some a \<longrightarrow> a \<in> table_entries t \<and> matches hp k h a)"
proof -
  let ?i = "bucket_of (bucket_count t) h"
  let ?c = "buckets t ! ?i"
  let ?j = "chain_find hp k h ?c"
  have i: "?i < bucket_count t" using ok by (simp add: table_ok_def bucket_of_less)
  then have len: "?i < length (buckets t)" using ok by (simp add: table_ok_def)
  show ?thesis
  proof (cases "?j < length ?c")
    case False
    then have "t' = t" "r = None"
      using rm by (auto simp: table_Remove_def FindPointer_def slot_def Let_def)
    then show ?thesis using ok by simp
  next
    case True
    let ?c' = "take ?j ?c @ drop (Suc ?j) ?c"
    have r: "r = Some (?c ! ?j)"
      and t': "t' = t\<lparr>buckets := (buckets t)[?i := ?c'], elems := elems t - 1\<rparr>"
      using rm True by (auto simp: table_Remove_def FindPointer_def slot_def Let_def)
    have dc: "distinct ?c"
      using ok concat_split [OF len] by (simp add: table_ok_def)
    have dc': "distinct ?c'" and setc': "set ?c' = set ?c - {?c ! ?j}"
      using drop_nth_distinct [OF dc True] by auto
    have sub: "set ?c \<subseteq> table_entries t" using len by (auto intro: in_bucket_entries)
    have ok': "table_ok hp (t\<lparr>buckets := (buckets t)[?i := ?c']\<rparr>)"
    proof (rule table_ok_update [OF ok i dc'])
      show "\<forall>a\<in>set ?c'. a \<in> set ?c \<or> a \<notin> table_entries t \<and>
          (\<exists>x. hp a = Some x \<and> bucket_of (bucket_count t) (hash x) = ?i)"
        using setc' by blast
      show "\<forall>a\<in>table_entries t - set ?c \<union> set ?c'.
          \<forall>b\<in>table_entries t - set ?c \<union> set ?c'. same_key hp a b \<longrightarrow> a = b"
        using ok setc' sub unfolding table_ok_def by blast
    qed
    have mem: "?c ! ?j \<in> set ?c" using True by simp
    have E: "table_entries (t\<lparr>buckets := (buckets t)[?i := ?c']\<rparr>) =
        (table_entries t - set ?c) \<union> set ?c'"
      by (rule entries_update [OF ok i])
    have ent: "table_entries t' = table_entries t - {?c ! ?j}"
      unfolding t' table_entries_elems E setc' using sub mem by blast
    have "?c ! ?j \<in> table_entries t" using mem sub by blast
    moreover have "matches hp k h (?c ! ?j)" using True by (rule chain_find_match)
    ultimately show ?thesis using ok' ent r by (simp add: t')
  qed
qed

lemma table_Remove_own:
  assumes ok: "table_ok hp t" and a: "a \<in> table_entries t" and x: "hp a = Some x"
  shows "snd (table_Remove hp t (key_data x) (hash x)) = Some a"
proof -
  let ?i = "bucket_of (bucket_count t) (hash x)"
  let ?c = "buckets t ! ?i"
  let ?j = "chain_find hp (key_data x) (hash x) ?c"
  have m: "matches hp (key_data x) (hash x) a" using x by (rule matches_self)
  have ac: "a \<in> set ?c" using matches_bucket [OF ok a m] .
  then have j: "?j < length ?c" using m by (rule chain_find_first)
  then have mj: "matches hp (key_data x) (hash x) (?c ! ?j)" by (rule chain_find_match)
  have i: "?i < length (buckets t)" using ok by (simp add: table_ok_def bucket_of_less)
  have "?c ! ?j \<in> table_entries t" using j i by (auto intro: in_bucket_entries)
  then have "?c ! ?j = a"
    using ok a matches_same_key [OF mj m] unfolding table_ok_def by blast
  then show ?thesis
    using j by (simp add: table_Remove_def FindPointer_def slot_def Let_def)
qed

lemma new_length_loop_pos: "0 < n \<Longrightarrow> 0 < new_length_loop n e"
  by (induction n e rule: new_length_loop.induct) (subst new_length_loop.simps, auto)

lemma fold_rehash:
  assumes "table_ok hp \<lparr>bucket_count = n, elems = m, buckets = acc\<rparr>"
    and "distinct l"
    and "set l \<inter> set (concat acc) = {}"
    and "\<forall>a \<in> set l. \<exists>x. hp a = Some x"
    and "\<forall>a \<in> set l \<union> set (concat acc). \<forall>b \<in> set l \<union> set (concat acc).
           same_key hp a b \<longrightarrow> a = b"
  shows "table_ok hp \<lparr>bucket_count = n, elems = m, buckets = fold (rehash hp n) l acc\<rparr> \<and>
         set (concat (fold (rehash hp n) l acc)) = set l \<union> set (concat acc)"
  using assms
proof (induction l arbitrary: acc)
  case Nil
  then show ?case by simp
next
  case (Cons a l)
  let ?t = "\<lparr>bucket_count = n, elems = m, buckets = acc\<rparr>"
  obtain x where x: "hp a = Some x" using Cons.prems(4) by auto
  let ?i = "bucket_of n (hash x)"
  have n: "0 < n" and len: "length acc = n" using Cons.prems(1) by (auto simp: table_ok_def)
  have i: "?i < bucket_count ?t" using n by (simp add: bucket_of_less)
  have fresh: "a \<notin> table_entries ?t" using Cons.prems(3) by (auto simp: table_entries_def)
  have sub: "set (acc ! ?i) \<subseteq> table_entries ?t"
    using i len in_bucket_entries [of ?i ?t] by auto
  have dci: "distinct (acc ! ?i)"
    using Cons.prems(1) concat_split [of ?i acc] i len by (simp add: table_ok_def)
  have step: "rehash hp n a acc = acc[?i := a # acc ! ?i]"
    using x by (simp add: rehash_def Let_def)
  have ent: "table_entries (?t\<lparr>buckets := acc[?i := a # acc ! ?i]\<rparr>) =
      (table_entries ?t - set (acc ! ?i)) \<union> set (a # acc ! ?i)"
    using entries_update [OF Cons.prems(1) i, of "a # acc ! ?i"] by simp
  then have ent': "set (concat (acc[?i := a # acc ! ?i])) = insert a (set (concat acc))"
    using sub by (auto simp: table_entries_def)
  have p1: "distinct (a # acc ! ?i)" using dci fresh sub by auto
  have p2: "\<forall>a'\<in>set (a # acc ! ?i). a' \<in> set (buckets ?t ! ?i) \<or>
        a' \<notin> table_entries ?t \<and>
        (\<exists>x. hp a' = Some x \<and> bucket_of (bucket_count ?t) (hash x) = ?i)"
    using x fresh by auto
  have p3: "\<forall>a'\<in>table_entries ?t - set (buckets ?t ! ?i) \<union> set (a # acc ! ?i).
        \<forall>b\<in>table_entries ?t - set (buckets ?t ! ?i) \<union> set (a # acc ! ?i).
          same_key hp a' b \<longrightarrow> a' = b"
  proof -
    define S where "S = set (a # l) \<union> set (concat acc)"
    have U: "\<forall>a'\<in>S. \<forall>b\<in>S. same_key hp a' b \<longrightarrow> a' = b"
      using Cons.prems(5) unfolding S_def .
    have "table_entries ?t \<subseteq> S" by (auto simp: S_def table_entries_def)
    moreover have "set (a # acc ! ?i) \<subseteq> S" using sub by (auto simp: S_def table_entries_def)
    ultimately have "table_entries ?t - set (buckets ?t ! ?i) \<union> set (a # acc ! ?i) \<subseteq> S"
      by blast
    with U show ?thesis by blast
  qed
  have ok': "table_ok hp (?t\<lparr>buckets := acc[?i := a # acc ! ?i]\<rparr>)"
    using table_ok_update [OF Cons.prems(1) i p1 p2 p3] by simp
  have "table_ok hp \<lparr>bucket_count = n, elems = m,
            buckets = fold (rehash hp n) l (acc[?i := a # acc ! ?i])\<rparr> \<and>
        set (concat (fold (rehash hp n) l (acc[?i := a # acc ! ?i]))) =
          set l \<union> set (concat (acc[?i := a # acc ! ?i]))"
  proof (rule Cons.IH)
    show "table_ok hp \<lparr>bucket_count = n, elems = m, buckets = acc[?i := a # acc ! ?i]\<rparr>"
      using ok' by simp
    show "distinct l" using Cons.prems(2) by simp
    show "set l \<inter> set (concat (acc[?i := a # acc ! ?i])) = {}"
      using Cons.prems(2,3) ent' by auto
    show "\<forall>a\<in>set l. \<exists>x. hp a = Some x" using Cons.prems(4) by simp
    show "\<forall>a'\<in>set l \<union> set (concat (acc[?i := a # acc ! ?i])).
        \<forall>b\<in>set l \<union> set (concat (acc[?i := a # acc ! ?i])). same_key hp a' b \<longrightarrow> a' = b"
      using Cons.prems(5) ent' by auto
  qed
  then show ?case using ent' by (simp add: step)
qed

lemma replicate_nil_concat: "concat (replicate n []) = []"
  by (induction n) auto

lemma Resize_spec:
  assumes ok: "table_ok hp t"
  shows "table_ok hp (Resize hp t) \<and> table_entries (Resize hp t) = table_entries t"
proof -
  let ?n = "new_length_loop 4 (elems t)"
  have n: "0 < ?n" by (rule new_length_loop_pos) simp
  have empty: "table_ok hp \<lparr>bucket_count = ?n, elems = elems t, buckets = replicate ?n []\<rparr>"
    using n by (simp add: table_ok_def table_entries_def replicate_nil_concat)
  have alloc: "\<forall>a \<in> set (concat (buckets t)). \<exists>x. hp a = Some x"
    using table_ok_bucket [OF ok] by (auto simp: table_entries_def)
  have "table_ok hp \<lparr>bucket_count = ?n, elems = elems t,
          buckets = fold (rehash hp ?n) (concat (buckets t)) (replicate ?n [])\<rparr> \<and>
        set (concat (fold (rehash hp ?n) (concat (buckets t)) (replicate ?n []))) =
          set (concat (buckets t)) \<union> set (concat (replicate ?n []))"
  proof (rule fold_rehash [OF empty])
    show "distinct (concat (buckets t))" using ok by (simp add: table_ok_def)
    show "set (concat (buckets t)) \<inter> set (concat (replicate ?n [])) = {}"
      by (simp add: replicate_nil_concat)
    show "\<forall>a\<in>set (concat (buckets t)). \<exists>x. hp a = Some x" by (rule alloc)
    show "\<forall>a\<in>set (concat (buckets t)) \<union> set (concat (replicate ?n [])).
        \<forall>b\<in>set (concat (buckets t)) \<union> set (concat (replicate ?n [])). same_key hp a b \<longrightarrow> a = b"
      using ok by (simp add: table_ok_def table_entries_def replicate_nil_concat)
  qed
  moreover have "Resize hp t = \<lparr>bucket_count = ?n, elems = elems t,
          buckets = fold (rehash hp ?n) (concat (buckets t)) (replicate ?n [])\<rparr>"
    by (simp add: Resize_def Let_def)
  ultimately show ?thesis
    by (simp add: table_entries_def replicate_nil_concat)
qed

lemma table_Insert_spec:
  assumes ok: "table_ok hp t" and x: "hp e = Some x" and fresh: "e \<notin> table_entries t"
    and ins: "table_Insert hp t e = (t', old)"
  shows "table_ok hp t' \<and> table_entries t' = insert e (table_entries t - set_option old) \<and>
         (\<forall>d. old = Some d \<longrightarrow> d \<in> table_entries t)"
proof -
  let ?i = "bucket_of (bucket_count t) (hash x)"
  let ?c = "buckets t ! ?i"
  let ?j = "chain_find hp (key_data x) (hash x) ?c"
  have i: "?i < bucket_count t" using ok by (simp add: table_ok_def bucket_of_less)
  then have len: "?i < length (buckets t)" using ok by (simp add: table_ok_def)
  have dc: "distinct ?c"
    using ok concat_split [OF len] by (simp add: table_ok_def)
  have sub: "set ?c \<subseteq> table_entries t" using len by (auto intro: in_bucket_entries)
  have ec: "e \<notin> set ?c" using fresh sub by blast
  have U: "\<forall>a\<in>table_entries t. \<forall>b\<in>table_entries t. same_key hp a b \<longrightarrow> a = b"
    using ok by (simp add: table_ok_def)
  have inb: "b \<in> set ?c" if "b \<in> table_entries t" "same_key hp e b" for b
    using matches_bucket [OF ok that(1) same_key_matches [OF x that(2)]] .
  show ?thesis
  proof (cases "?j < length ?c")
    case True
    let ?d = "?c ! ?j"
    let ?c' = "?c[?j := e]"
    have old: "old = Some ?d" and t': "t' = t\<lparr>buckets := (buckets t)[?i := ?c']\<rparr>"
      using ins x True by (auto simp: table_Insert_def FindPointer_def slot_def Let_def)
    have om: "matches hp (key_data x) (hash x) ?d" using True by (rule chain_find_match)
    have oc: "?d \<in> set ?c" using True by simp
    have setc': "set ?c' = insert e (set ?c - {?d})"
      using dc True by (auto simp: set_update_distinct)
    have dc': "distinct ?c'" using dc ec True by (simp add: distinct_list_update)
    have p2: "\<forall>a\<in>set ?c'. a \<in> set ?c \<or> a \<notin> table_entries t \<and>
          (\<exists>x. hp a = Some x \<and> bucket_of (bucket_count t) (hash x) = ?i)"
      using setc' x fresh by auto
    have p3: "\<forall>a\<in>table_entries t - set ?c \<union> set ?c'.
          \<forall>b\<in>table_entries t - set ?c \<union> set ?c'. same_key hp a b \<longrightarrow> a = b"
    proof (intro ballI impI)
      fix a b
      assume a: "a \<in> table_entries t - set ?c \<union> set ?c'"
        and b: "b \<in> table_entries t - set ?c \<union> set ?c'" and s: "same_key hp a b"
      have a': "a = e \<or> a \<in> table_entries t \<and> a \<noteq> ?d"
        using a sub oc unfolding setc' by blast
      have b': "b = e \<or> b \<in> table_entries t \<and> b \<noteq> ?d"
        using b sub oc unfolding setc' by blast
      have only: "y = ?d" if "y \<in> table_entries t" "same_key hp e y" for y
      proof -
        have "y \<in> set ?c" using inb that by blast
        moreover have "matches hp (key_data x) (hash x) y"
          using same_key_matches [OF x that(2)] .
        ultimately show ?thesis
          using U that(1) oc sub matches_same_key [OF om] by blast
      qed
      show "a = b"
        using a' b' s only same_key_sym [OF s] U by blast
    qed
    have "table_ok hp t'" unfolding t' by (rule table_ok_update [OF ok i dc' p2 p3])
    moreover have "table_entries t' = insert e (table_entries t - {?d})"
      unfolding t' entries_update [OF ok i] setc' using sub oc ec by blast
    moreover have "?d \<in> table_entries t" using oc sub by blast
    ultimately show ?thesis using old by simp
  next
    case False
    let ?c' = "?c @ [e]"
    let ?t1 = "t\<lparr>buckets := (buckets t)[?i := ?c']\<rparr>"
    have old: "old = None"
      and t': "t' = (if elems t + 1 > bucket_count t
                     then Resize hp (?t1\<lparr>elems := elems t + 1\<rparr>)
                     else ?t1\<lparr>elems := elems t + 1\<rparr>)"
      using ins x False by (auto simp: table_Insert_def FindPointer_def slot_def Let_def)
    have jl: "?j = length ?c" using False chain_find_le [of hp "key_data x" "hash x" ?c] by simp
    have dc': "distinct ?c'" using dc ec by simp
    have p2: "\<forall>a\<in>set ?c'. a \<in> set ?c \<or> a \<notin> table_entries t \<and>
          (\<exists>x. hp a = Some x \<and> bucket_of (bucket_count t) (hash x) = ?i)"
      using x fresh by auto
    have none: "\<not> same_key hp e y" if "y \<in> table_entries t" for y
    proof
      assume s: "same_key hp e y"
      have "y \<in> set ?c" using inb that s by blast
      then have "\<not> matches hp (key_data x) (hash x) y" by (rule chain_find_none [OF jl])
      then show False using same_key_matches [OF x s] by simp
    qed
    have p3: "\<forall>a\<in>table_entries t - set ?c \<union> set ?c'.
          \<forall>b\<in>table_entries t - set ?c \<union> set ?c'. same_key hp a b \<longrightarrow> a = b"
    proof (intro ballI impI)
      fix a b
      assume a: "a \<in> table_entries t - set ?c \<union> set ?c'"
        and b: "b \<in> table_entries t - set ?c \<union> set ?c'" and s: "same_key hp a b"
      have sc: "set ?c' = insert e (set ?c)" by simp
      have a': "a = e \<or> a \<in> table_entries t" using a sub unfolding sc by blast
      have b': "b = e \<or> b \<in> table_entries t" using b sub unfolding sc by blast
      show "a = b" using a' b' s none same_key_sym [OF s] U by blast
    qed
    have ok1: "table_ok hp ?t1" by (rule table_ok_update [OF ok i dc' p2 p3])
    have e1: "table_entries ?t1 = insert e (table_entries t)"
      unfolding entries_update [OF ok i] using sub by auto
    have ok2: "table_ok hp (?t1\<lparr>elems := elems t + 1\<rparr>)" using ok1 by simp
    have "table_ok hp t' \<and> table_entries t' = insert e (table_entries t)"
      unfolding t' using Resize_spec [OF ok2] ok2 e1 by simp
    then show ?thesis using old by simp
  qed
qed

lemma table_ok_heap:
  assumes "table_ok hp t"
    and "\<forall>a \<in> table_entries t. \<exists>x x'. hp a = Some x \<and> hp' a = Some x' \<and>
           key_data x' = key_data x \<and> hash x' = hash x"
  shows "table_ok hp' t"
proof -
  have sk: "same_key hp' a b = same_key hp a b"
    if A: "a \<in> table_entries t" and B: "b \<in> table_entries t" for a b
  proof -
    obtain x x' where "hp a = Some x" "hp' a = Some x'" "key_data x' = key_data x" "hash x' = hash x"
      using assms(2) A by blast
    moreover obtain y y' where "hp b = Some y" "hp' b = Some y'" "key_data y' = key_data y" "hash y' = hash y"
      using assms(2) B by blast
    ultimately show ?thesis by (simp add: same_key_def)
  qed
  have T3: "\<exists>x. hp' a = Some x \<and> bucket_of (bucket_count t) (hash x) = i"
    if i: "i < bucket_count t" and a: "a \<in> set (buckets t ! i)" for i a
  proof -
    have "a \<in> table_entries t"
      using i a assms(1) by (auto simp: table_ok_def intro: in_bucket_entries)
    moreover obtain x where "hp a = Some x" "bucket_of (bucket_count t) (hash x) = i"
      using assms(1) i a by (auto simp: table_ok_def)
    ultimately show ?thesis using assms(2) by fastforce
  qed
  show ?thesis
    using assms(1) sk T3 unfolding table_ok_def by blast
qed

lemma charge_sum_update:
  assumes "e < n"
  shows "sum (charge_at (hp(e := v))) {..<n} =
           sum (charge_at hp) {..<n} - charge_at hp e + charge_at (hp(e := v)) e"
proof -
  have fin: "finite {..<n}" and mem: "e \<in> {..<n}" using assms by auto
  have "sum (charge_at (hp(e := v))) ({..<n} - {e}) = sum (charge_at hp) ({..<n} - {e})"
    by (rule sum.cong) (auto simp: charge_at_def)
  then show ?thesis
    using sum.remove [OF fin mem, of "charge_at (hp(e := v))"]
      sum.remove [OF fin mem, of "charge_at hp"]
    by simp
qed

lemma charge_sum_extend:
  assumes "\<forall>a. hp a \<noteq> None \<longrightarrow> a < n"
  shows "sum (charge_at (hp(n \<mapsto> x))) {..<Suc n} = sum (charge_at hp) {..<n} + charge x"
proof -
  have "sum (charge_at (hp(n \<mapsto> x))) {..<n} = sum (charge_at hp) {..<n}"
    by (rule sum.cong) (auto simp: charge_at_def)
  then show ?thesis by (simp add: charge_at_def)
qed

subsection \<open>The operations keep the invariant\<close>

lemma shard_inv_refs:
  assumes "shard_inv p c held" "heap c a = Some x"
  shows "unat (refs x) = (if a \<in> set (lru c) then 1 else 0) + count_list held a +
           (if p = Some a then 1 else 0)" and "0 < unat (refs x)"
  using assms unfolding shard_inv_def by blast+

lemma Unref_inv:
  assumes inv: "shard_inv (Some e) c held"
  shows "shard_inv None (Unref e c) held"
proof -
  from inv have ne: "heap c e \<noteq> None" by (auto simp: shard_inv_def)
  then obtain x where x: "heap c e = Some x" by auto
  define base where "base = (if e \<in> set (lru c) then 1 else 0) + count_list held e"
  have r: "unat (refs x) = base + 1"
    using inv x by (auto simp: shard_inv_def base_def)
  then have nz: "refs x \<noteq> 0" by (metis Suc_eq_plus1 nat.distinct(1) unat_0)
  have r1: "unat (refs x - 1) = base" using r unat_minus_one [OF nz] by simp
  have en: "e < next_handle c" using inv ne by (auto simp: shard_inv_def)
  have tok: "table_ok (heap c) (table c)" and ent: "table_entries (table c) = set (lru c)"
    using inv by (auto simp: shard_inv_def)
  show ?thesis
  proof (cases "base = 0")
    case True
    then have z: "refs x - 1 = 0" using r1 by (simp add: unat_eq_0)
    have el: "e \<notin> set (lru c)" and eh: "e \<notin> set held"
      using True by (auto simp: base_def count_list_0_iff split: if_splits)
    have u: "Unref e c = c\<lparr>usage := usage c - charge x,
                     deleted := deleted c @ [(key_data x, value_ptr x)],
                     heap := (heap c)(e := None)\<rparr>"
      using x z by (simp add: Unref_def Let_def)
    have tok': "table_ok ((heap c)(e := None)) (table c)"
    proof (rule table_ok_heap [OF tok], intro ballI)
      fix a assume a: "a \<in> table_entries (table c)"
      then have "a \<noteq> e" using el ent by auto
      moreover obtain y where "heap c a = Some y"
        using table_ok_bucket [OF tok a] by blast
      ultimately show "\<exists>x x'. heap c a = Some x \<and> ((heap c)(e := None)) a = Some x' \<and>
          key_data x' = key_data x \<and> hash x' = hash x" by simp
    qed
    have tc: "total_charge (Unref e c) = total_charge c - charge x"
      using charge_sum_update [OF en, of "heap c" None] x
      by (simp add: u total_charge_def charge_at_def)
    have R: "\<And>a y. heap c a = Some y \<Longrightarrow> a \<noteq> e \<Longrightarrow>
        unat (refs y) = (if a \<in> set (lru c) then 1 else 0) + count_list held a \<and> 0 < unat (refs y)"
    proof -
      fix a y assume h: "heap c a = Some y" and n: "a \<noteq> e"
      from shard_inv_refs [OF inv h] n
      show "unat (refs y) = (if a \<in> set (lru c) then 1 else 0) + count_list held a \<and> 0 < unat (refs y)"
        by simp
    qed
    show ?thesis
      unfolding shard_inv_def u
    proof (intro conjI allI impI)
      fix a y assume "heap (c\<lparr>usage := usage c - charge x,
                     deleted := deleted c @ [(key_data x, value_ptr x)],
                     heap := (heap c)(e := None)\<rparr>) a = Some y"
      then have "heap c a = Some y" "a \<noteq> e" by (auto split: if_splits)
      from R [OF this]
      show "unat (refs y) = (if a \<in> set (lru (c\<lparr>usage := usage c - charge x,
                     deleted := deleted c @ [(key_data x, value_ptr x)],
                     heap := (heap c)(e := None)\<rparr>)) then 1 else 0) + count_list held a +
                     (if None = Some a then 1 else 0)" and "0 < unat (refs y)" by auto
    qed (use inv tok' el eh tc [unfolded u] in \<open>auto simp: shard_inv_def ent split: if_splits\<close>)
  next
    case False
    then have nz1: "refs x - 1 \<noteq> 0" using r1 by (metis unat_0)
    have u: "Unref e c = c\<lparr>heap := (heap c)(e \<mapsto> x\<lparr>refs := refs x - 1\<rparr>)\<rparr>"
      using x nz1 by (simp add: Unref_def Let_def)
    have tok': "table_ok ((heap c)(e \<mapsto> x\<lparr>refs := refs x - 1\<rparr>)) (table c)"
    proof (rule table_ok_heap [OF tok], intro ballI)
      fix a assume a: "a \<in> table_entries (table c)"
      obtain y where "heap c a = Some y"
        using table_ok_bucket [OF tok a] by blast
      then show "\<exists>y y'. heap c a = Some y \<and>
          ((heap c)(e \<mapsto> x\<lparr>refs := refs x - 1\<rparr>)) a = Some y' \<and>
          key_data y' = key_data y \<and> hash y' = hash y"
        using x by (cases "a = e") auto
    qed
    have tc: "total_charge (Unref e c) = total_charge c"
      using charge_sum_update [OF en, of "heap c" "Some (x\<lparr>refs := refs x - 1\<rparr>)"] x
      by (simp add: u total_charge_def charge_at_def)
    have R: "\<And>a y. heap c a = Some y \<Longrightarrow> a \<noteq> e \<Longrightarrow>
        unat (refs y) = (if a \<in> set (lru c) then 1 else 0) + count_list held a \<and> 0 < unat (refs y)"
    proof -
      fix a y assume h: "heap c a = Some y" and n: "a \<noteq> e"
      from shard_inv_refs [OF inv h] n
      show "unat (refs y) = (if a \<in> set (lru c) then 1 else 0) + count_list held a \<and> 0 < unat (refs y)"
        by simp
    qed
    show ?thesis
      unfolding shard_inv_def u
    proof (intro conjI allI impI)
      fix a y assume h: "heap (c\<lparr>heap := (heap c)(e \<mapsto> x\<lparr>refs := refs x - 1\<rparr>)\<rparr>) a = Some y"
      have "unat (refs y) = (if a \<in> set (lru c) then 1 else 0) + count_list held a \<and> 0 < unat (refs y)"
      proof (cases "a = e")
        case True
        then have "y = x\<lparr>refs := refs x - 1\<rparr>" using h by simp
        then show ?thesis using r1 False True by (simp add: base_def)
      next
        case F: False
        then have "heap c a = Some y" using h by simp
        from R [OF this F] show ?thesis .
      qed
      then show "unat (refs y) = (if a \<in> set (lru (c\<lparr>heap := (heap c)(e \<mapsto> x\<lparr>refs := refs x - 1\<rparr>)\<rparr>)) then 1 else 0) + count_list held a +
                     (if None = Some a then 1 else 0)" and "0 < unat (refs y)" by auto
    qed (use inv tok' tc [unfolded u] x in \<open>auto simp: shard_inv_def ent split: if_splits\<close>)
  qed
qed

lemma shard_invI:
  assumes "distinct (lru c)"
    and "table_ok (heap c) (table c)"
    and "table_entries (table c) = set (lru c)"
    and "\<And>a x. heap c a = Some x \<Longrightarrow> a < next_handle c"
    and "\<And>a x. heap c a = Some x \<Longrightarrow>
           unat (refs x) = (if a \<in> set (lru c) then 1 else 0) + count_list held a +
                           (if p = Some a then 1 else 0)"
    and "\<And>a x. heap c a = Some x \<Longrightarrow> 0 < unat (refs x)"
    and "\<And>a. heap c a = None \<Longrightarrow> a \<notin> set (lru c) \<and> a \<notin> set held \<and> p \<noteq> Some a"
    and "\<And>a. count_list held a < 2 ^ 32 - 1"
    and "usage c = total_charge c"
  shows "shard_inv p c held"
  unfolding shard_inv_def using assms by blast

lemma shard_inv_distinct: "shard_inv p c held \<Longrightarrow> distinct (lru c)"
  and shard_inv_table_ok: "shard_inv p c held \<Longrightarrow> table_ok (heap c) (table c)"
  and shard_inv_entries: "shard_inv p c held \<Longrightarrow> table_entries (table c) = set (lru c)"
  and shard_inv_count: "shard_inv p c held \<Longrightarrow> count_list held a < 2 ^ 32 - 1"
  and shard_inv_usage: "shard_inv p c held \<Longrightarrow> usage c = total_charge c"
  unfolding shard_inv_def by blast+

lemma shard_inv_alloc: "shard_inv p c held \<Longrightarrow> heap c a = Some x \<Longrightarrow> a < next_handle c"
  unfolding shard_inv_def by blast

lemma shard_inv_none:
  "shard_inv p c held \<Longrightarrow> heap c a = None \<Longrightarrow> a \<notin> set (lru c) \<and> a \<notin> set held \<and> p \<noteq> Some a"
  unfolding shard_inv_def by blast

lemma shard_inv_on_list:
  assumes "shard_inv p c held" and "a \<in> set (lru c)"
  shows "\<exists>x. heap c a = Some x"
  using shard_inv_none [OF assms(1), of a] assms(2) by (cases "heap c a") auto

lemma count_list_remove1:
  "count_list (remove1 e xs) a =
     (if a = e \<and> e \<in> set xs then count_list xs a - 1 else count_list xs a)"
proof (induction xs)
  case Nil
  show ?case by simp
next
  case (Cons y ys)
  have "0 < count_list ys e" if "e \<in> set ys"
    using that count_list_0_iff [of ys e] by auto
  then show ?case using Cons by auto
qed

lemma total_charge_simps [simp]:
  "total_charge (c\<lparr>table := t\<rparr>) = total_charge c"
  "total_charge (c\<lparr>lru := l\<rparr>) = total_charge c"
  by (simp_all add: total_charge_def)

lemma lru_table_swap: "c\<lparr>lru := l, table := t\<rparr> = c\<lparr>table := t, lru := l\<rparr>"
  by simp

lemma shard_inv_table:
  assumes inv: "shard_inv p c held"
    and tok: "table_ok (heap c) t" and ent: "table_entries t = set (lru c)"
  shows "shard_inv p (c\<lparr>table := t\<rparr>) held"
proof (rule shard_invI)
  let ?c = "c\<lparr>table := t\<rparr>"
  show "distinct (lru ?c)" using shard_inv_distinct [OF inv] by simp
  show "table_ok (heap ?c) (table ?c)" using tok by simp
  show "table_entries (table ?c) = set (lru ?c)" using ent by simp
  show "usage ?c = total_charge ?c" using shard_inv_usage [OF inv] by simp
  show "count_list held a < 2 ^ 32 - 1" for a by (rule shard_inv_count [OF inv])
  show "a < next_handle ?c" if "heap ?c a = Some x" for a x
    using shard_inv_alloc [OF inv, of a x] that by simp
  show "0 < unat (refs x)" if "heap ?c a = Some x" for a x
    using shard_inv_refs(2) [OF inv, of a x] that by simp
  show "unat (refs x) = (if a \<in> set (lru ?c) then 1 else 0) + count_list held a +
          (if p = Some a then 1 else 0)" if "heap ?c a = Some x" for a x
    using shard_inv_refs(1) [OF inv, of a x] that by simp
  show "a \<notin> set (lru ?c) \<and> a \<notin> set held \<and> p \<noteq> Some a" if "heap ?c a = None" for a
    using shard_inv_none [OF inv, of a] that by simp
qed

lemma detach:
  assumes inv: "shard_inv None c held" and e: "e \<in> set (lru c)"
    and tok: "table_ok (heap c) t" and ent: "table_entries t = set (lru c) - {e}"
  shows "shard_inv (Some e) (c\<lparr>table := t, lru := remove1 e (lru c)\<rparr>) held"
proof (rule shard_invI)
  let ?c = "c\<lparr>table := t, lru := remove1 e (lru c)\<rparr>"
  have d: "distinct (lru c)" by (rule shard_inv_distinct [OF inv])
  have s: "set (lru ?c) = set (lru c) - {e}" using d by simp
  show "distinct (lru ?c)" using d by simp
  show "table_ok (heap ?c) (table ?c)" using tok by simp
  show "table_entries (table ?c) = set (lru ?c)" using ent s by simp
  show "usage ?c = total_charge ?c" using shard_inv_usage [OF inv] by simp
  show "count_list held a < 2 ^ 32 - 1" for a by (rule shard_inv_count [OF inv])
  show "a < next_handle ?c" if "heap ?c a = Some x" for a x
    using shard_inv_alloc [OF inv, of a x] that by simp
  show "0 < unat (refs x)" if "heap ?c a = Some x" for a x
    using shard_inv_refs(2) [OF inv, of a x] that by simp
  show "unat (refs x) = (if a \<in> set (lru ?c) then 1 else 0) + count_list held a +
          (if Some e = Some a then 1 else 0)" if "heap ?c a = Some x" for a x
  proof -
    have "heap c a = Some x" using that by simp
    from shard_inv_refs(1) [OF inv this] show ?thesis
      unfolding s using e by auto
  qed
  show "a \<notin> set (lru ?c) \<and> a \<notin> set held \<and> Some e \<noteq> Some a" if "heap ?c a = None" for a
  proof -
    have n: "heap c a = None" using that by simp
    from shard_inv_none [OF inv n] e show ?thesis unfolding s by auto
  qed
qed

lemma Release_inv:
  assumes inv: "shard_inv None c held" and e: "e \<in> set held"
  shows "shard_inv None (Release e c) (remove1 e held)"
proof -
  have "shard_inv (Some e) c (remove1 e held)"
  proof (rule shard_invI)
    show "distinct (lru c)" by (rule shard_inv_distinct [OF inv])
    show "table_ok (heap c) (table c)" by (rule shard_inv_table_ok [OF inv])
    show "table_entries (table c) = set (lru c)" by (rule shard_inv_entries [OF inv])
    show "usage c = total_charge c" by (rule shard_inv_usage [OF inv])
    show "count_list (remove1 e held) a < 2 ^ 32 - 1" for a
      using shard_inv_count [OF inv, of a] by (simp add: count_list_remove1)
    show "a < next_handle c" if "heap c a = Some x" for a x
      by (rule shard_inv_alloc [OF inv that])
    show "0 < unat (refs x)" if "heap c a = Some x" for a x
      by (rule shard_inv_refs(2) [OF inv that])
    show "unat (refs x) = (if a \<in> set (lru c) then 1 else 0) + count_list (remove1 e held) a +
          (if Some e = Some a then 1 else 0)" if "heap c a = Some x" for a x
    proof -
      have "0 < count_list held e" using e count_list_0_iff [of held e] by auto
      then show ?thesis
        using shard_inv_refs(1) [OF inv that] e by (auto simp: count_list_remove1)
    qed
    show "a \<notin> set (lru c) \<and> a \<notin> set (remove1 e held) \<and> Some e \<noteq> Some a"
      if "heap c a = None" for a
      using shard_inv_none [OF inv that] e notin_set_remove1 [of a held e] by auto
  qed
  then show ?thesis unfolding Release_def by (rule Unref_inv)
qed

lemma Erase_inv:
  assumes inv: "shard_inv None c held"
  shows "shard_inv None (Erase k h c) held"
proof -
  obtain t r where rm: "table_Remove (heap c) (table c) k h = (t, r)" by force
  note sp = table_Remove_spec [OF shard_inv_table_ok [OF inv] rm]
  show ?thesis
  proof (cases r)
    case None
    then have E: "Erase k h c = c\<lparr>table := t\<rparr>" by (simp add: Erase_def rm)
    have "table_ok (heap c) t" "table_entries t = set (lru c)"
      using sp None shard_inv_entries [OF inv] by auto
    then show ?thesis unfolding E by (rule shard_inv_table [OF inv])
  next
    case (Some e)
    then have E: "Erase k h c = Unref e (c\<lparr>table := t, lru := remove1 e (lru c)\<rparr>)"
      by (simp add: Erase_def rm LRU_Remove_def)
    have "e \<in> set (lru c)" "table_ok (heap c) t" "table_entries t = set (lru c) - {e}"
      using sp Some shard_inv_entries [OF inv] by auto
    from detach [OF inv this] show ?thesis unfolding E by (rule Unref_inv)
  qed
qed

lemma evict_one_inv:
  assumes inv: "shard_inv None c held" and ne: "lru c \<noteq> []"
  shows "shard_inv None (evict_one c) held"
proof -
  define old where "old = hd (lru c)"
  have o: "old \<in> set (lru c)" using ne by (simp add: old_def)
  obtain x where x: "heap c old = Some x" using shard_inv_on_list [OF inv o] by auto
  obtain t r where rm: "table_Remove (heap c) (table c) (key_data x) (hash x) = (t, r)" by force
  have oe: "old \<in> table_entries (table c)" using o shard_inv_entries [OF inv] by simp
  have r: "r = Some old"
    using table_Remove_own [OF shard_inv_table_ok [OF inv] oe x] rm by simp
  note sp = table_Remove_spec [OF shard_inv_table_ok [OF inv] rm]
  have E: "evict_one c = Unref old (c\<lparr>table := t, lru := remove1 old (lru c)\<rparr>)"
    using x rm by (simp add: evict_one_def Let_def LRU_Remove_def old_def [symmetric] lru_table_swap)
  have "table_ok (heap c) t" "table_entries t = set (lru c) - {old}"
    using sp r shard_inv_entries [OF inv] by auto
  from detach [OF inv o this] show ?thesis unfolding E by (rule Unref_inv)
qed

lemma evict_loop_inv:
  "shard_inv None c held \<Longrightarrow> shard_inv None (evict_loop c) held"
proof (induction c rule: evict_loop.induct)
  case (1 c)
  show ?case
  proof (cases "usage c > capacity c \<and> lru c \<noteq> []")
    case True
    then have "shard_inv None (evict_one c) held" using evict_one_inv [OF "1.prems"] by simp
    from "1.IH" [OF True this] show ?thesis using True by (subst evict_loop.simps) simp
  next
    case False
    then show ?thesis using "1.prems" by (subst evict_loop.simps) auto
  qed
qed

lemma Lookup_miss: "Lookup k h c = (None, c') \<Longrightarrow> c' = c"
  by (auto simp: Lookup_def Let_def split: option.splits)

lemma Lookup_inv:
  assumes inv: "shard_inv None c held" and len: "length held < 2 ^ 32 - 2"
    and L: "Lookup k h c = (Some e, c')"
  shows "shard_inv None c' (e # held)"
proof -
  have tl: "table_Lookup (heap c) (table c) k h = Some e"
    using L by (auto simp: Lookup_def Let_def split: option.splits)
  have tok: "table_ok (heap c) (table c)" by (rule shard_inv_table_ok [OF inv])
  have el: "e \<in> set (lru c)"
    using table_Lookup_in [OF tok tl] shard_inv_entries [OF inv] by simp
  obtain x where x: "heap c e = Some x" using shard_inv_on_list [OF inv el] by auto
  define hp where "hp = (heap c)(e \<mapsto> x\<lparr>refs := refs x + 1\<rparr>)"
  define l where "l = remove1 e (lru c) @ [e]"
  have c': "c' = c\<lparr>heap := hp, lru := l\<rparr>"
    using L tl x by (simp add: Lookup_def Let_def LRU_Remove_def LRU_Append_def hp_def l_def)
  have d: "distinct (lru c)" by (rule shard_inv_distinct [OF inv])
  have sl: "set l = set (lru c)" using el d by (auto simp: l_def)
  have cl: "count_list held e \<le> length held" by (rule count_le_length)
  have rx: "unat (refs x) = 1 + count_list held e"
    using shard_inv_refs(1) [OF inv x] el by simp
  have "unat (refs x + 1) = (unat (refs x) + 1) mod 2 ^ 32"
    by (simp add: unat_word_ariths)
  also have "\<dots> = unat (refs x) + 1" using rx cl len by simp
  finally have rx': "unat (refs x + 1) = 2 + count_list held e" using rx by simp
  show ?thesis unfolding c'
  proof (rule shard_invI)
    let ?c = "c\<lparr>heap := hp, lru := l\<rparr>"
    show "distinct (lru ?c)" using d by (simp add: l_def)
    show "table_ok (heap ?c) (table ?c)"
    proof (simp, rule table_ok_heap [OF tok], intro ballI)
      fix a assume a: "a \<in> table_entries (table c)"
      obtain y where "heap c a = Some y" using table_ok_bucket [OF tok a] by blast
      then show "\<exists>y y'. heap c a = Some y \<and> hp a = Some y' \<and>
          key_data y' = key_data y \<and> hash y' = hash y"
        using x by (cases "a = e") (auto simp: hp_def)
    qed
    show "table_entries (table ?c) = set (lru ?c)"
      using shard_inv_entries [OF inv] sl by simp
    show "usage ?c = total_charge ?c"
      using shard_inv_usage [OF inv] shard_inv_alloc [OF inv x]
        charge_sum_update [of e "next_handle c" "heap c" "Some (x\<lparr>refs := refs x + 1\<rparr>)"] x
      by (simp add: total_charge_def hp_def charge_at_def)
    show "count_list (e # held) a < 2 ^ 32 - 1" for a
      using count_le_length [of held a] len by simp
    show "a < next_handle ?c" if "heap ?c a = Some y" for a y
      using that shard_inv_alloc [OF inv, of a] x by (cases "a = e") (auto simp: hp_def)
    show "0 < unat (refs y)" if "heap ?c a = Some y" for a y
      using that shard_inv_refs(2) [OF inv, of a y] rx' by (cases "a = e") (auto simp: hp_def)
    show "unat (refs y) = (if a \<in> set (lru ?c) then 1 else 0) + count_list (e # held) a +
          (if None = Some a then 1 else 0)" if "heap ?c a = Some y" for a y
    proof (cases "a = e")
      case True
      then have "y = x\<lparr>refs := refs x + 1\<rparr>" using that by (simp add: hp_def)
      then show ?thesis using rx' True el sl by simp
    next
      case False
      then have "heap c a = Some y" using that by (simp add: hp_def)
      from shard_inv_refs(1) [OF inv this] show ?thesis using False sl by simp
    qed
    show "a \<notin> set (lru ?c) \<and> a \<notin> set (e # held) \<and> None \<noteq> Some a" if "heap ?c a = None" for a
    proof -
      have "a \<noteq> e" "heap c a = None" using that by (auto simp: hp_def split: if_splits)
      then show ?thesis using shard_inv_none [OF inv, of a] sl by simp
    qed
  qed
qed

lemma Insert_mid:
  assumes inv: "shard_inv None c held"
    and hp: "heap d = (heap c)(next_handle c \<mapsto> x)" and r2: "refs x = 2"
    and nx: "next_handle d = Suc (next_handle c)"
    and us: "usage d = usage c + charge x"
    and tok: "table_ok (heap d) (table d)"
    and ent: "table_entries (table d) = insert (next_handle c) (set (lru c) - set_option old)"
    and old: "\<And>b. old = Some b \<Longrightarrow> b \<in> set (lru c)"
    and dl: "distinct (lru d)"
    and sl: "set (lru d) = insert (next_handle c) (set (lru c) - set_option old)"
  shows "shard_inv old d (next_handle c # held)"
proof (rule shard_invI)
  define n where "n = next_handle c"
  have hn: "heap c n = None"
    using shard_inv_alloc [OF inv, of n] by (cases "heap c n") (auto simp: n_def)
  note nn = shard_inv_none [OF inv hn]
  have on: "old \<noteq> Some n" using old nn by auto
  show "distinct (lru d)" by (rule dl)
  show "table_ok (heap d) (table d)" by (rule tok)
  show "table_entries (table d) = set (lru d)" using ent sl by simp
  have "\<forall>a. heap c a \<noteq> None \<longrightarrow> a < next_handle c"
    using shard_inv_alloc [OF inv] by auto
  from charge_sum_extend [OF this, of x] show "usage d = total_charge d"
    using shard_inv_usage [OF inv] by (simp add: total_charge_def hp nx us)
  show "count_list (next_handle c # held) a < 2 ^ 32 - 1" for a
    using shard_inv_count [OF inv, of a] nn count_list_0_iff [of held n]
    by (auto simp: n_def)
  show "a < next_handle d" if "heap d a = Some y" for a y
    using that shard_inv_alloc [OF inv, of a y] by (cases "a = n") (auto simp: hp nx n_def)
  show "0 < unat (refs y)" if "heap d a = Some y" for a y
    using that shard_inv_refs(2) [OF inv, of a y] r2
    by (cases "a = n") (auto simp: hp n_def)
  show "unat (refs y) = (if a \<in> set (lru d) then 1 else 0) + count_list (next_handle c # held) a +
          (if old = Some a then 1 else 0)" if "heap d a = Some y" for a y
  proof (cases "a = n")
    case True
    then have "y = x" using that by (simp add: hp n_def)
    moreover have "count_list held n = 0" using nn count_list_0_iff [of held n] by simp
    ultimately show ?thesis using True r2 on sl by (simp add: n_def)
  next
    case False
    then have h: "heap c a = Some y" using that by (simp add: hp n_def)
    from shard_inv_refs(1) [OF inv h] show ?thesis
      using False old [of a] unfolding sl n_def [symmetric]
      by (cases old) auto
  qed
  show "a \<notin> set (lru d) \<and> a \<notin> set (next_handle c # held) \<and> old \<noteq> Some a"
    if "heap d a = None" for a
  proof -
    have "a \<noteq> n" "heap c a = None" using that by (auto simp: hp n_def split: if_splits)
    then show ?thesis using shard_inv_none [OF inv, of a] old [of a] sl by (auto simp: n_def)
  qed
qed

lemma Insert_eviction:
  "Insert k h v ch c = (next_handle c, evict_loop (before_eviction k h v ch c))"
  by (simp add: Insert_def before_eviction_def Let_def split_beta)

lemma capacity_before_eviction [simp]: "capacity (before_eviction k h v ch c) = capacity c"
  by (simp add: before_eviction_def Let_def split_beta LRU_Append_def LRU_Remove_def
      split: option.split)

lemma before_eviction_inv:
  assumes inv: "shard_inv None c held"
  shows "shard_inv None (before_eviction k h v ch c) (next_handle c # held)"
proof -
  define n where "n = next_handle c"
  define x where "x = \<lparr>value_ptr = v, charge = ch, key_data = k, refs = 2, hash = h\<rparr>"
  define hp where "hp = (heap c)(n \<mapsto> x)"
  obtain t old where ti: "table_Insert hp (table c) n = (t, old)" by force
  define c2 where "c2 = c\<lparr>heap := hp, next_handle := Suc n, lru := lru c @ [n],
                          usage := usage c + ch, table := t\<rparr>"
  define c3 where "c3 = (case old of None \<Rightarrow> c2 | Some b \<Rightarrow> Unref b (LRU_Remove b c2))"
  have I': "before_eviction k h v ch c = c3"
    using ti by (simp add: before_eviction_def Let_def LRU_Append_def n_def [symmetric]
        x_def [symmetric] hp_def [symmetric] c2_def c3_def split: option.split)
  have hn: "heap c n = None"
    using shard_inv_alloc [OF inv, of n] by (cases "heap c n") (auto simp: n_def)
  note nn = shard_inv_none [OF inv hn]
  have tok: "table_ok (heap c) (table c)" by (rule shard_inv_table_ok [OF inv])
  have en: "table_entries (table c) = set (lru c)" by (rule shard_inv_entries [OF inv])
  have tok': "table_ok hp (table c)"
  proof (rule table_ok_heap [OF tok], intro ballI)
    fix a assume a: "a \<in> table_entries (table c)"
    then have "a \<noteq> n" using nn en by auto
    moreover obtain y where "heap c a = Some y" using table_ok_bucket [OF tok a] by blast
    ultimately show "\<exists>y y'. heap c a = Some y \<and> hp a = Some y' \<and>
        key_data y' = key_data y \<and> hash y' = hash y" by (simp add: hp_def)
  qed
  have fresh: "n \<notin> table_entries (table c)" using nn en by simp
  have hx: "hp n = Some x" by (simp add: hp_def)
  note sp = table_Insert_spec [OF tok' hx fresh ti]
  have d: "distinct (lru c)" by (rule shard_inv_distinct [OF inv])
  have o: "b \<in> set (lru c)" if "old = Some b" for b using sp that en by auto
  have m: "shard_inv None c3 (n # held)"
  proof (cases old)
    case None
    have "shard_inv old c2 (next_handle c # held)"
      by (rule Insert_mid [OF inv, where x = x])
        (use sp d nn o None in \<open>auto simp: c2_def hp_def n_def x_def en\<close>)
    then show ?thesis using None by (simp add: c3_def n_def)
  next
    case (Some b)
    have bn: "b \<noteq> n" using o [OF Some] nn by auto
    have "shard_inv old (LRU_Remove b c2) (next_handle c # held)"
      by (rule Insert_mid [OF inv, where x = x])
        (use sp d nn o Some bn in \<open>auto simp: c2_def hp_def n_def x_def en LRU_Remove_def\<close>)
    then have "shard_inv None (Unref b (LRU_Remove b c2)) (n # held)"
      unfolding Some n_def by (rule Unref_inv)
    then show ?thesis using Some by (simp add: c3_def)
  qed
  then show ?thesis by (simp add: I' n_def)
qed

lemma Insert_inv:
  assumes inv: "shard_inv None c held" and I: "Insert k h v ch c = (e, c')"
  shows "shard_inv None c' (e # held)"
  using evict_loop_inv [OF before_eviction_inv [OF inv, of k h v ch]] I
  by (simp add: Insert_eviction)

lemma prune_one_inv:
  assumes inv: "shard_inv None c held" and e: "e \<in> set (lru c)"
  shows "shard_inv None (prune_one e c) held \<and>
         (lru (prune_one e c) = lru c \<or> lru (prune_one e c) = remove1 e (lru c))"
proof -
  obtain x where x: "heap c e = Some x" using shard_inv_on_list [OF inv e] by auto
  show ?thesis
  proof (cases "refs x = 1")
    case False
    then have "prune_one e c = c" using x by (simp add: prune_one_def)
    then show ?thesis using inv by simp
  next
    case True
    obtain t r where rm: "table_Remove (heap c) (table c) (key_data x) (hash x) = (t, r)"
      by force
    have oe: "e \<in> table_entries (table c)" using e shard_inv_entries [OF inv] by simp
    have r: "r = Some e"
      using table_Remove_own [OF shard_inv_table_ok [OF inv] oe x] rm by simp
    note sp = table_Remove_spec [OF shard_inv_table_ok [OF inv] rm]
    have E: "prune_one e c = Unref e (c\<lparr>table := t, lru := remove1 e (lru c)\<rparr>)"
      using x rm True by (simp add: prune_one_def Let_def LRU_Remove_def)
    have "table_ok (heap c) t" "table_entries t = set (lru c) - {e}"
      using sp r shard_inv_entries [OF inv] by auto
    from detach [OF inv e this] have "shard_inv None (prune_one e c) held"
      unfolding E by (rule Unref_inv)
    moreover have "lru (prune_one e c) = remove1 e (lru c)"
      unfolding E by (simp add: lru_Unref)
    ultimately show ?thesis by simp
  qed
qed

lemma fold_prune_one_inv:
  "shard_inv None c held \<Longrightarrow> distinct l \<Longrightarrow> set l \<subseteq> set (lru c) \<Longrightarrow>
   shard_inv None (fold prune_one l c) held"
proof (induction l arbitrary: c)
  case Nil
  then show ?case by simp
next
  case (Cons e l)
  have e: "e \<in> set (lru c)" using Cons.prems(3) by simp
  note p = prune_one_inv [OF Cons.prems(1) e]
  have "set l \<subseteq> set (lru (prune_one e c))"
    using p Cons.prems(2,3) shard_inv_distinct [OF Cons.prems(1)] by auto
  from Cons.IH [OF conjunct1 [OF p] _ this] Cons.prems(2) show ?case by simp
qed

lemma Prune_inv: "shard_inv None c held \<Longrightarrow> shard_inv None (Prune c) held"
  unfolding Prune_def by (rule fold_prune_one_inv) (auto dest: shard_inv_distinct)

lemma new_LRUCache_inv: "shard_inv None (new_LRUCache cap) []"
proof (rule shard_invI)
  have e: "table_entries new_HandleTable = {}"
    by (simp add: table_entries_def new_HandleTable_eval)
  have "[[], [], [], []] ! i \<in> set [[], [], [], []]" if "i < 4" for i :: nat
    by (rule nth_mem) (use that in simp)
  then have "table_ok (\<lambda>a. None) new_HandleTable"
    unfolding table_ok_def e by (auto simp: new_HandleTable_eval)
  then show "table_ok (heap (new_LRUCache cap)) (table (new_LRUCache cap))"
    by (simp add: new_LRUCache_def)
  show "table_entries (table (new_LRUCache cap)) = set (lru (new_LRUCache cap))"
    using e by (simp add: new_LRUCache_def)
qed (simp_all add: new_LRUCache_def total_charge_def)

lemma reachable_inv: "reachable c held \<Longrightarrow> shard_inv None c held"
proof (induction rule: reachable.induct)
  case (init cap)
  show ?case by (rule new_LRUCache_inv)
next
  case (insert c held k h v ch e c')
  then show ?case by (auto intro: Insert_inv)
next
  case (lookup_hit c held k h e c')
  then show ?case by (auto intro: Lookup_inv)
next
  case (lookup_miss c held k h c')
  then show ?case by (auto dest: Lookup_miss)
next
  case (release c held e)
  then show ?case by (auto intro: Release_inv)
next
  case (erase c held k h)
  then show ?case by (auto intro: Erase_inv)
next
  case (prune c held)
  then show ?case by (auto intro: Prune_inv)
qed

lemma Insert_A: "Insert [0x41] 1 0 1 (new_LRUCache 1) = (0, cache_A)"
  by (simp add: cache_A_def prod_eq_iff Insert_def Let_def split_beta new_LRUCache_def)

subsection \<open>The eviction loop of Insert\<close>

lemma table_Lookup_None:
  assumes ok: "table_ok hp t" and no: "\<forall>a \<in> table_entries t. \<not> matches hp k h a"
  shows "table_Lookup hp t k h = None"
proof -
  define i where "i = bucket_of (bucket_count t) h"
  define j where "j = chain_find hp k h (buckets t ! i)"
  have il: "i < length (buckets t)"
    using ok bucket_of_less [of "bucket_count t" h] by (simp add: table_ok_def i_def)
  have "\<not> j < length (buckets t ! i)"
  proof
    assume l: "j < length (buckets t ! i)"
    then have "matches hp k h (buckets t ! i ! j)"
      unfolding j_def by (rule chain_find_match)
    moreover have "buckets t ! i ! j \<in> table_entries t"
      using in_bucket_entries [OF il] l by simp
    ultimately show False using no by blast
  qed
  then show ?thesis
    by (simp add: table_Lookup_def FindPointer_def slot_def Let_def i_def j_def)
qed

lemma refs_last: "(r::u32) - 1 \<le> 0 \<longleftrightarrow> r = 1"
  by auto

lemma evict_one_head:
  assumes "lru c = a # rest" and "heap c a = Some x"
  shows "heap (evict_one c) a = (if refs x = 1 then None else Some (x\<lparr>refs := refs x - 1\<rparr>))"
    and "usage (evict_one c) = (if refs x = 1 then usage c - charge x else usage c)"
  using assms by (simp_all add: evict_one_def LRU_Remove_def Unref_def Let_def refs_last)

lemma evict_loop_spec:
  "shard_inv None c held \<Longrightarrow>
   \<exists>n \<le> length (lru c).
     evict_loop c = (evict_one ^^ n) c \<and>
     (\<forall>j<n. capacity c < usage ((evict_one ^^ j) c)) \<and>
     (n < length (lru c) \<longrightarrow> usage (evict_loop c) \<le> capacity c) \<and>
     lru (evict_loop c) = drop n (lru c) \<and>
     (\<forall>a \<in> set (take n (lru c)). \<exists>x. heap c a = Some x \<and>
         heap (evict_loop c) a = (if refs x = 1 then None else Some (x\<lparr>refs := refs x - 1\<rparr>))) \<and>
     (\<forall>b. b \<notin> set (take n (lru c)) \<longrightarrow> heap (evict_loop c) b = heap c b)"
proof (induction c rule: evict_loop.induct)
  case (1 c)
  note inv = "1.prems"
  show ?case
  proof (cases "usage c > capacity c \<and> lru c \<noteq> []")
    case False
    then have e: "evict_loop c = c" by (subst evict_loop.simps) auto
    have "0 < length (lru c) \<longrightarrow> usage c \<le> capacity c" using False by auto
    then show ?thesis unfolding e by (intro exI [of _ 0]) simp
  next
    case True
    then obtain a rest where l: "lru c = a # rest" by (cases "lru c") auto
    obtain x where x: "heap c a = Some x"
      using shard_inv_on_list [OF inv, of a] l by auto
    have d: "a \<notin> set rest" using shard_inv_distinct [OF inv] l by simp
    define c1 where "c1 = evict_one c"
    have inv1: "shard_inv None c1 held"
      unfolding c1_def using inv True by (intro evict_one_inv) auto
    have l1: "lru c1 = rest" using l by (simp add: c1_def lru_evict_one)
    have e: "evict_loop c = evict_loop c1"
      using True by (subst evict_loop.simps) (simp add: c1_def)
    from "1.IH" [OF True inv1 [unfolded c1_def]] obtain n1 where n1: "n1 \<le> length (lru c1)"
      and run: "evict_loop c1 = (evict_one ^^ n1) c1"
      and grd: "\<forall>j<n1. capacity c1 < usage ((evict_one ^^ j) c1)"
      and stop: "n1 < length (lru c1) \<longrightarrow> usage (evict_loop c1) \<le> capacity c1"
      and lr: "lru (evict_loop c1) = drop n1 (lru c1)"
      and ev: "\<forall>a \<in> set (take n1 (lru c1)). \<exists>x. heap c1 a = Some x \<and>
         heap (evict_loop c1) a = (if refs x = 1 then None else Some (x\<lparr>refs := refs x - 1\<rparr>))"
      and ot: "\<forall>b. b \<notin> set (take n1 (lru c1)) \<longrightarrow> heap (evict_loop c1) b = heap c1 b"
      unfolding c1_def by blast
    have cap: "capacity c1 = capacity c" by (simp add: c1_def)
    have other: "heap c1 b = heap c b" if "b \<noteq> a" for b
      using that l by (simp add: c1_def heap_evict_one_other)
    have a1: "a \<notin> set (take n1 (lru c1))" using d l1 by (auto dest: in_set_takeD)
    have A: "Suc n1 \<le> length (lru c)" using n1 l l1 by simp
    have B: "evict_loop c = (evict_one ^^ Suc n1) c"
      using e run by (simp add: c1_def funpow_swap1)
    have C: "\<forall>j<Suc n1. capacity c < usage ((evict_one ^^ j) c)"
    proof (intro allI impI)
      fix j assume j: "j < Suc n1"
      show "capacity c < usage ((evict_one ^^ j) c)"
      proof (cases j)
        case 0
        then show ?thesis using True by simp
      next
        case (Suc j')
        then have "j' < n1" using j by simp
        then have "capacity c1 < usage ((evict_one ^^ j') c1)" using grd by blast
        then show ?thesis using Suc cap by (simp add: c1_def funpow_swap1)
      qed
    qed
    have D: "Suc n1 < length (lru c) \<longrightarrow> usage (evict_loop c) \<le> capacity c"
      using stop l l1 e cap by simp
    have E: "lru (evict_loop c) = drop (Suc n1) (lru c)"
      using lr l l1 e by simp
    have F: "\<forall>b \<in> set (take (Suc n1) (lru c)). \<exists>y. heap c b = Some y \<and>
         heap (evict_loop c) b = (if refs y = 1 then None else Some (y\<lparr>refs := refs y - 1\<rparr>))"
    proof
      fix b assume b: "b \<in> set (take (Suc n1) (lru c))"
      show "\<exists>y. heap c b = Some y \<and>
         heap (evict_loop c) b = (if refs y = 1 then None else Some (y\<lparr>refs := refs y - 1\<rparr>))"
      proof (cases "b = a")
        case True
        have "heap (evict_loop c) a = heap c1 a" using ot a1 e by simp
        then show ?thesis
          using True x evict_one_head(1) [OF l x] by (simp add: c1_def)
      next
        case False
        then have "b \<in> set (take n1 (lru c1))" using b l l1 by simp
        then obtain y where "heap c1 b = Some y"
          "heap (evict_loop c1) b = (if refs y = 1 then None else Some (y\<lparr>refs := refs y - 1\<rparr>))"
          using ev by blast
        then show ?thesis using other [OF False] e by simp
      qed
    qed
    have G: "\<forall>b. b \<notin> set (take (Suc n1) (lru c)) \<longrightarrow> heap (evict_loop c) b = heap c b"
    proof (intro allI impI)
      fix b assume b: "b \<notin> set (take (Suc n1) (lru c))"
      then have "b \<noteq> a" "b \<notin> set (take n1 (lru c1))" using l l1 by auto
      then show "heap (evict_loop c) b = heap c b" using ot other e by simp
    qed
    show ?thesis using A B C D E F G by blast
  qed
qed

lemma unat_one_iff: "(r::u32) = 1 \<longleftrightarrow> unat r = 1"
proof
  assume "unat r = 1"
  then have "unat r = unat (1::u32)" by simp
  then show "r = 1" by (simp only: unsigned_word_eqI)
qed simp

lemma refs_pinned_iff: "0 < unat (r::u32) \<Longrightarrow> r = 1 \<longleftrightarrow> \<not> 2 \<le> r"
proof -
  assume "0 < unat r"
  moreover have "r = 1 \<longleftrightarrow> unat r = 1" by (rule unat_one_iff)
  moreover have "2 \<le> r \<longleftrightarrow> 2 \<le> unat r" by (simp add: word_le_nat_alt)
  ultimately show ?thesis by auto
qed

lemma release_detached:
  assumes inv: "shard_inv None c held" and h: "a \<in> set held" and l: "a \<notin> set (lru c)"
  shows "\<exists>x. heap c a = Some x \<and> unat (refs x) = count_list held a \<and>
           heap (Release a c) a =
             (if count_list held a = 1 then None else Some (x\<lparr>refs := refs x - 1\<rparr>)) \<and>
           usage (Release a c) =
             (if count_list held a = 1 then usage c - charge x else usage c)"
proof -
  obtain x where x: "heap c a = Some x"
    using shard_inv_none [OF inv, of a] h by (cases "heap c a") auto
  have r: "unat (refs x) = count_list held a"
    using shard_inv_refs(1) [OF inv x] l by simp
  have "refs x = 1 \<longleftrightarrow> unat (refs x) = 1" by (rule unat_one_iff)
  then have one: "refs x = 1 \<longleftrightarrow> count_list held a = 1" using r by simp
  show ?thesis
    using x r one by (simp add: Release_def Unref_def Let_def refs_last)
qed

lemma matches_heap: "hp' b = hp b \<Longrightarrow> matches hp' k h b = matches hp k h b"
  by (simp add: matches_def)

lemma eviction_in_shard:
  assumes inv: "shard_inv None c held"
  shows "\<exists>n \<le> length (lru c).
           evict_loop c = (evict_one ^^ n) c \<and>
           (\<forall>j<n. capacity c < usage ((evict_one ^^ j) c)) \<and>
           (n < length (lru c) \<longrightarrow> usage (evict_loop c) \<le> capacity c) \<and>
           lru (evict_loop c) = drop n (lru c) \<and>
           (\<forall>a \<in> set (take n (lru c)). \<exists>x. heap c a = Some x \<and> 1 \<le> refs x \<and>
               a \<notin> set (lru (evict_loop c)) \<and> a \<notin> table_entries (table (evict_loop c)) \<and>
               table_Lookup (heap (evict_loop c)) (table (evict_loop c)) (key_data x) (hash x) = None \<and>
               heap (evict_loop c) a = (if 2 \<le> refs x then Some (x\<lparr>refs := refs x - 1\<rparr>) else None)) \<and>
           (\<forall>b. b \<notin> set (take n (lru c)) \<longrightarrow> heap (evict_loop c) b = heap c b)"
proof -
  define c' where "c' = evict_loop c"
  from evict_loop_spec [OF inv] obtain n where n: "n \<le> length (lru c)"
    and run: "c' = (evict_one ^^ n) c"
    and grd: "\<forall>j<n. capacity c < usage ((evict_one ^^ j) c)"
    and stop: "n < length (lru c) \<longrightarrow> usage c' \<le> capacity c"
    and lr: "lru c' = drop n (lru c)"
    and ev: "\<forall>a \<in> set (take n (lru c)). \<exists>x. heap c a = Some x \<and>
         heap c' a = (if refs x = 1 then None else Some (x\<lparr>refs := refs x - 1\<rparr>))"
    and ot: "\<forall>b. b \<notin> set (take n (lru c)) \<longrightarrow> heap c' b = heap c b"
    unfolding c'_def by blast
  have inv': "shard_inv None c' held" unfolding c'_def by (rule evict_loop_inv [OF inv])
  have d: "distinct (lru c)" by (rule shard_inv_distinct [OF inv])
  have split: "lru c = take n (lru c) @ drop n (lru c)" by simp
  have disj: "set (take n (lru c)) \<inter> set (drop n (lru c)) = {}"
    using d by (metis append_take_drop_id distinct_append)
  have tok: "table_ok (heap c) (table c)" by (rule shard_inv_table_ok [OF inv])
  have en: "table_entries (table c) = set (lru c)" by (rule shard_inv_entries [OF inv])
  have en': "table_entries (table c') = set (drop n (lru c))"
    using shard_inv_entries [OF inv'] lr by simp
  have uniq: "a = b" if "a \<in> set (lru c)" "b \<in> set (lru c)" "same_key (heap c) a b" for a b
    using tok that en unfolding table_ok_def by blast
  have each: "\<exists>x. heap c a = Some x \<and> 1 \<le> refs x \<and>
               a \<notin> set (lru c') \<and> a \<notin> table_entries (table c') \<and>
               table_Lookup (heap c') (table c') (key_data x) (hash x) = None \<and>
               heap c' a = (if 2 \<le> refs x then Some (x\<lparr>refs := refs x - 1\<rparr>) else None)"
    if a: "a \<in> set (take n (lru c))" for a
  proof -
    obtain x where x: "heap c a = Some x"
      and hx: "heap c' a = (if refs x = 1 then None else Some (x\<lparr>refs := refs x - 1\<rparr>))"
      using ev a by blast
    have pos: "0 < unat (refs x)" by (rule shard_inv_refs(2) [OF inv x])
    then have one: "1 \<le> refs x" by (simp add: word_le_nat_alt)
    have al: "a \<in> set (lru c)" using a by (rule in_set_takeD)
    have nl: "a \<notin> set (drop n (lru c))" using a disj by auto
    have no: "\<forall>b \<in> table_entries (table c'). \<not> matches (heap c') (key_data x) (hash x) b"
    proof
      fix b assume b: "b \<in> table_entries (table c')"
      then have bd: "b \<in> set (drop n (lru c))" using en' by simp
      then have bl: "b \<in> set (lru c)" by (rule in_set_dropD)
      have bt: "b \<notin> set (take n (lru c))" using bd disj by auto
      then have hb: "heap c' b = heap c b" using ot by blast
      show "\<not> matches (heap c') (key_data x) (hash x) b"
      proof
        assume "matches (heap c') (key_data x) (hash x) b"
        then have "matches (heap c) (key_data x) (hash x) b"
          using matches_heap [of "heap c'" b "heap c", OF hb] by simp
        then have "same_key (heap c) a b"
          using matches_same_key [of "heap c" "key_data x" "hash x" a b]
            matches_self [of "heap c" a x] x by blast
        then have "a = b" using uniq al bl by blast
        then show False using bd nl by simp
      qed
    qed
    have "table_Lookup (heap c') (table c') (key_data x) (hash x) = None"
      by (rule table_Lookup_None [OF shard_inv_table_ok [OF inv'] no])
    then show ?thesis
      using x one nl lr en' hx refs_pinned_iff [OF pos] by auto
  qed
  show ?thesis
    using n run grd stop lr each ot unfolding c'_def by blast
qed

lemma Insert_B: "Insert [0x42] 2 0 1 cache_A = (1, cache_AB)"
  by (simp add: Insert_eviction cache_AB_def cache_A_eval)

lemma before_eviction_B:
  "before_eviction [0x42] 2 0 1 cache_A =
     \<lparr>capacity = 1, usage = 2, lru = [0, 1],
      table = \<lparr>bucket_count = 4, elems = 2, buckets = [[], [0], [1], []]\<rparr>,
      heap = ((\<lambda>a. None)(0 \<mapsto> \<lparr>value_ptr = 0, charge = 1, key_data = [0x41], refs = 2, hash = 1\<rparr>))
               (1 \<mapsto> \<lparr>value_ptr = 0, charge = 1, key_data = [0x42], refs = 2, hash = 2\<rparr>),
      next_handle = 2, deleted = []\<rparr>"
  by (simp add: before_eviction_def cache_A_eval LRU_Append_def
      table_Insert_def FindPointer_def bucket_of_def slot_def matches_def Let_def)

lemma before_eviction_A:
  "before_eviction [0x41] 1 0 1 (new_LRUCache 1) = cache_A"
  by (simp add: before_eviction_def cache_A_eval new_LRUCache_def new_HandleTable_eval
      LRU_Append_def table_Insert_def FindPointer_def bucket_of_def slot_def matches_def Let_def)

lemma funpow_2: "(f ^^ 2) x = f (f x)"
  by (simp add: numeral_2_eq_2)

lemma evict_twice_B:
  "(evict_one ^^ 2) (before_eviction [0x42] 2 0 1 cache_A) = cache_AB"
proof -
  have "evict_one (before_eviction [0x42] 2 0 1 cache_A) =
     \<lparr>capacity = 1, usage = 2, lru = [1],
      table = \<lparr>bucket_count = 4, elems = 1, buckets = [[], [], [1], []]\<rparr>,
      heap = ((\<lambda>a. None)(0 \<mapsto> \<lparr>value_ptr = 0, charge = 1, key_data = [0x41], refs = 1, hash = 1\<rparr>))
               (1 \<mapsto> \<lparr>value_ptr = 0, charge = 1, key_data = [0x42], refs = 2, hash = 2\<rparr>),
      next_handle = 2, deleted = []\<rparr>"
    by (simp add: before_eviction_B evict_one_def LRU_Remove_def
        table_Remove_def FindPointer_def bucket_of_def slot_def matches_def Unref_def Let_def
        fun_upd_twist)
  then show ?thesis
    by (simp only: funpow_2)
       (simp add: cache_AB_eval evict_one_def LRU_Remove_def
        table_Remove_def FindPointer_def bucket_of_def slot_def matches_def Unref_def Let_def)
qed

text \<open>
  C2, as stated: an entry that is pinned (\<open>refs \<ge> 2\<close>) is never evicted by
  \<open>Insert\<close>.  The shard has a single list, which holds pinned entries too.
  Entry A is on it with \<open>refs = 2\<close>; inserting B raises the usage to 2 over the
  capacity 1, and the loop of \<open>Insert\<close> takes A off the list and out of the hash
  table, leaving it allocated with \<open>refs = 1\<close>.
\<close>

theorem pinned_entry_evicted_by_Insert:
  "map_option refs (heap cache_A 0) = Some 2 \<and> 0 \<in> set (lru cache_A) \<and>
   cache_AB = snd (Insert [0x42] 2 0 1 cache_A) \<and>
   0 \<notin> set (lru cache_AB) \<and>
   table_Lookup (heap cache_AB) (table cache_AB) [0x41] 1 = None \<and>
   map_option refs (heap cache_AB 0) = Some 1"
  by (simp add: cache_AB_def [symmetric])
     (simp add: cache_A_eval cache_AB_eval table_Lookup_def FindPointer_def bucket_of_def slot_def)

text \<open>
  C2, amended.  Take a shard in a reachable state and an \<open>Insert\<close> into it; \<open>c\<close>
  is the state in which \<open>Insert\<close> reaches its eviction loop and \<open>c'\<close> the state
  it returns.  The loop evicts the \<open>n\<close> oldest entries of the single list, whatever
  their reference counts, where \<open>n\<close> is the number of evictions for which the usage
  was above the capacity: the usage is above the capacity before each of them, and
  after the last the usage is within the capacity or the list is empty.  Every evicted
  entry is off the list and out of the hash table; a pinned one (\<open>refs \<ge> 2\<close>) stays
  allocated with \<open>refs\<close> one less, an unpinned one is freed; no other entry changes,
  and the table holds the entries left on the list.  The usage is the sum of the
  charges of the entries still allocated, so the charge of an evicted pinned entry
  still counts.  In every reachable state an entry of which a handle is held is
  allocated, and releasing a handle of an entry that is off the list frees the entry
  and subtracts its charge exactly when that handle is the only one held.
\<close>

theorem eviction_takes_list_head:
  assumes "reachable c0 held"
    and "c = before_eviction k h v ch c0"
    and "c' = snd (Insert k h v ch c0)"
  shows "(\<exists>n \<le> length (lru c).
            c' = (evict_one ^^ n) c \<and>
            (\<forall>j<n. capacity c < usage ((evict_one ^^ j) c)) \<and>
            (n < length (lru c) \<longrightarrow> usage c' \<le> capacity c) \<and>
            lru c' = drop n (lru c) \<and>
            (\<forall>a \<in> set (take n (lru c)). \<exists>x. heap c a = Some x \<and> 1 \<le> refs x \<and>
                a \<notin> set (lru c') \<and> a \<notin> table_entries (table c') \<and>
                table_Lookup (heap c') (table c') (key_data x) (hash x) = None \<and>
                heap c' a = (if 2 \<le> refs x then Some (x\<lparr>refs := refs x - 1\<rparr>) else None)) \<and>
            (\<forall>b. b \<notin> set (take n (lru c)) \<longrightarrow> heap c' b = heap c b)) \<and>
         table_entries (table c') = set (lru c') \<and>
         usage c' = total_charge c' \<and>
         usage c0 = total_charge c0 \<and>
         (a \<in> set held \<longrightarrow> heap c0 a \<noteq> None) \<and>
         (a \<in> set held \<and> a \<notin> set (lru c0) \<longrightarrow>
            (\<exists>x. heap c0 a = Some x \<and> unat (refs x) = count_list held a \<and>
               heap (Release a c0) a =
                 (if count_list held a = 1 then None else Some (x\<lparr>refs := refs x - 1\<rparr>)) \<and>
               usage (Release a c0) =
                 (if count_list held a = 1 then usage c0 - charge x else usage c0)))"
proof -
  have inv0: "shard_inv None c0 held" by (rule reachable_inv [OF assms(1)])
  have inv: "shard_inv None c (next_handle c0 # held)"
    unfolding assms(2) by (rule before_eviction_inv [OF inv0])
  have c': "c' = evict_loop c" by (simp add: assms(2,3) Insert_eviction)
  have u: "usage c' = total_charge c'"
    unfolding c' by (rule shard_inv_usage [OF evict_loop_inv [OF inv]])
  have t: "table_entries (table c') = set (lru c')"
    unfolding c' by (rule shard_inv_entries [OF evict_loop_inv [OF inv]])
  have u0: "usage c0 = total_charge c0" by (rule shard_inv_usage [OF inv0])
  have al: "a \<in> set held \<longrightarrow> heap c0 a \<noteq> None"
    using shard_inv_none [OF inv0, of a] by blast
  show ?thesis
    using eviction_in_shard [OF inv] u t u0 al release_detached [OF inv0, of a]
    unfolding c' by blast
qed

text \<open>
  The shard of capacity 1 holding A with its handle held: the \<open>Insert\<close> of B evicts
  A and then B itself, both pinned, and leaves the usage at 2; releasing the handle
  of A then frees A and brings the usage to 1.  The \<open>Insert\<close> of A into the empty
  shard evicts nothing.
\<close>

theorem eviction_takes_list_head_witness:
  "reachable cache_A [0] \<and>
   lru (before_eviction [0x42] 2 0 1 cache_A) = [0, 1] \<and>
   usage (before_eviction [0x42] 2 0 1 cache_A) = 2 \<and>
   capacity (before_eviction [0x42] 2 0 1 cache_A) = 1 \<and>
   snd (Insert [0x42] 2 0 1 cache_A) = (evict_one ^^ 2) (before_eviction [0x42] 2 0 1 cache_A) \<and>
   lru (snd (Insert [0x42] 2 0 1 cache_A)) = [] \<and>
   table_Lookup (heap cache_AB) (table cache_AB) [0x41] 1 = None \<and>
   map_option refs (heap cache_AB 0) = Some 1 \<and>
   map_option refs (heap cache_AB 1) = Some 1 \<and>
   usage cache_AB = 2 \<and> total_charge cache_AB = 2 \<and>
   snd (Insert [0x41] 1 0 1 (new_LRUCache 1)) = before_eviction [0x41] 1 0 1 (new_LRUCache 1) \<and>
   lru (snd (Insert [0x41] 1 0 1 (new_LRUCache 1))) = [0] \<and>
   reachable cache_AB [1, 0] \<and>
   heap (Release 0 cache_AB) 0 = None \<and>
   usage (Release 0 cache_AB) = 1"
proof -
  have rA: "reachable cache_A [0]"
    by (rule reachable.insert [OF reachable.init Insert_A])
  have rB: "reachable cache_AB [1, 0]"
    by (rule reachable.insert [OF rA Insert_B])
  have sB: "cache_AB = snd (Insert [0x42] 2 0 1 cache_A)" by (simp add: Insert_B)
  note tA = eviction_takes_list_head [OF rA refl sB, of 0]
  note tB = eviction_takes_list_head [OF rB refl refl, of "[]" 0 0 0 0]
  have u: "usage cache_AB = total_charge cache_AB" using tA by blast
  have rel: "heap (Release 0 cache_AB) 0 = None \<and> usage (Release 0 cache_AB) = 1"
    using tB by (simp add: cache_AB_eval)
  have ev: "usage cache_AB = 2" "lru cache_AB = []"
    "table_Lookup (heap cache_AB) (table cache_AB) [0x41] 1 = None"
    "map_option refs (heap cache_AB 0) = Some 1" "map_option refs (heap cache_AB 1) = Some 1"
    by (simp_all add: cache_AB_eval table_Lookup_def FindPointer_def bucket_of_def slot_def)
  have be: "lru (before_eviction [0x42] 2 0 1 cache_A) = [0, 1]"
    "usage (before_eviction [0x42] 2 0 1 cache_A) = 2"
    "capacity (before_eviction [0x42] 2 0 1 cache_A) = 1"
    by (simp_all add: before_eviction_B)
  have iA: "snd (Insert [0x41] 1 0 1 (new_LRUCache 1)) = before_eviction [0x41] 1 0 1 (new_LRUCache 1)"
    "lru (snd (Insert [0x41] 1 0 1 (new_LRUCache 1))) = [0]"
    by (simp_all add: Insert_A before_eviction_A cache_A_eval)
  show ?thesis
    using rA rB u rel ev be iA evict_twice_B sB by simp
qed

text \<open>
  C5, as stated: the usage counter equals the sum of the charges of the entries on
  the lists.  After \<open>Insert\<close> of A and \<open>Erase\<close> of its key, with the handle
  of A still held, the list is empty while the usage is still 1.
\<close>

theorem usage_counts_detached_entries:
  "lru (Erase [0x41] 1 cache_A) = [] \<and> list_charge (Erase [0x41] 1 cache_A) = 0 \<and>
   usage (Erase [0x41] 1 cache_A) = 1 \<and>
   usage (Erase [0x41] 1 cache_A) \<noteq> list_charge (Erase [0x41] 1 cache_A)"
  by (simp add: cache_A_eval Erase_def table_Remove_def FindPointer_def bucket_of_def slot_def
      matches_def Let_def LRU_Remove_def Unref_def list_charge_def)

text \<open>
  C5, amended: in every state of a shard reachable by \<open>Insert\<close>, \<open>Lookup\<close>,
  \<open>Release\<close>, \<open>Erase\<close> and \<open>Prune\<close>, the usage counter is the sum of the
  charges of the entries that are not yet freed, which are the entries on the
  list together with the entries whose handle a client still holds; every entry on
  the list has \<open>refs \<ge> 1\<close>; and no entry is on the list twice.
\<close>

theorem usage_is_charge_of_live_entries:
  assumes "reachable c held"
  shows "usage c = total_charge c \<and>
         (\<forall>a. heap c a \<noteq> None \<longleftrightarrow> a \<in> set (lru c) \<or> a \<in> set held) \<and>
         (\<forall>a \<in> set (lru c). \<exists>x. heap c a = Some x \<and> 1 \<le> refs x) \<and>
         distinct (lru c)"
proof -
  note inv = reachable_inv [OF assms]
  have live: "heap c a \<noteq> None \<longleftrightarrow> a \<in> set (lru c) \<or> a \<in> set held" for a
  proof (cases "heap c a")
    case None
    then show ?thesis using shard_inv_none [OF inv None] by simp
  next
    case (Some x)
    from shard_inv_refs [OF inv Some] have "a \<in> set (lru c) \<or> 0 < count_list held a"
      by (auto split: if_splits)
    then show ?thesis using Some count_list_0_iff [of held a] by auto
  qed
  have r: "\<exists>x. heap c a = Some x \<and> 1 \<le> refs x" if a: "a \<in> set (lru c)" for a
  proof -
    obtain x where x: "heap c a = Some x" using shard_inv_on_list [OF inv a] by auto
    have "0 < unat (refs x)" by (rule shard_inv_refs(2) [OF inv x])
    then have "1 \<le> refs x" by (simp add: word_le_nat_alt)
    then show ?thesis using x by simp
  qed
  show ?thesis
    using shard_inv_usage [OF inv] shard_inv_distinct [OF inv] live r by blast
qed

text \<open>
  The shard after the \<open>Insert\<close> of A, with the handle of A held, is such a state.
\<close>

theorem usage_is_charge_of_live_entries_witness:
  "reachable cache_A [0] \<and> usage cache_A = total_charge cache_A \<and> usage cache_A = 1 \<and>
   lru cache_A = [0] \<and> heap cache_A 0 \<noteq> None \<and> heap cache_A 1 = None \<and>
   (\<exists>x. heap cache_A 0 = Some x \<and> 1 \<le> refs x) \<and> distinct (lru cache_A)"
proof -
  have r: "reachable cache_A [0]"
    by (rule reachable.insert [OF reachable.init Insert_A])
  from usage_is_charge_of_live_entries [OF r] r show ?thesis
    by (simp add: cache_A_eval)
qed

section \<open>table/table_builder.cc\<close>

text \<open>
  \<open>BytewiseComparatorImpl::FindShortSuccessor\<close> of util/comparator.cc: the first
  byte that is not \<open>0xff\<close> is incremented and the key cut after it; a key of
  \<open>0xff\<close> bytes only is left alone.
\<close>

fun FindShortSuccessor :: "bytes \<Rightarrow> bytes" where
  "FindShortSuccessor [] = []"
| "FindShortSuccessor (b # key) =
     (if b \<noteq> 0xff then [b + 1] else b # FindShortSuccessor key)"

text \<open>\<open>EncodeVarint64\<close> and \<open>PutVarint64\<close> of util/coding.cc.\<close>

function EncodeVarint64 :: "u64 \<Rightarrow> bytes" where
  "EncodeVarint64 v =
     (if v \<ge> 128 then ucast ((v AND 127) OR 128) # EncodeVarint64 (drop_bit 7 v)
      else [ucast v])"
  by pat_completeness auto
termination
proof (relation "measure unat")
  show "wf (measure (unat :: u64 \<Rightarrow> nat))" by simp
next
  fix v :: u64
  assume "128 \<le> v"
  then have "128 \<le> unat v" by (simp add: word_le_nat_alt)
  then have "unat v div 128 < unat v" by simp
  then show "(drop_bit 7 v, v) \<in> measure unat"
    by (simp add: unat_drop_bit_eq) (simp add: drop_bit_eq_div)
qed

declare EncodeVarint64.simps [simp del]

definition PutVarint64 :: "bytes \<Rightarrow> u64 \<Rightarrow> bytes" where
  "PutVarint64 dst v = dst @ EncodeVarint64 v"

text \<open>
  Modelled from the spec: \<open>BlockHandle\<close> and its \<open>EncodeTo\<close> belong to
  table/format.cc, not part of the sources at hand.  Section 3: a block handle is
  \<open>(offset: varint64, size: varint64)\<close>.
\<close>

record BlockHandle =
  handle_offset :: u64
  handle_size :: u64

definition BlockHandle_EncodeTo :: "BlockHandle \<Rightarrow> bytes \<Rightarrow> bytes" where
  "BlockHandle_EncodeTo handle dst =
     PutVarint64 (PutVarint64 dst (handle_offset handle)) (handle_size handle)"

text \<open>
  Modelled from the spec: \<open>BlockBuilder\<close> belongs to table/block_builder.cc, not
  part of the sources at hand.  Section 3 gives the layout of a block: entries
  \<open>[shared][unshared][value_len][unshared bytes][value]\<close> with varint32 lengths,
  a restart point every \<open>K\<close> entries where the shared prefix is reset, then the
  array of restart offsets and their count as fixed32.  The size estimate is the
  size of that layout so far.
\<close>

record BlockBuilder =
  restart_interval :: nat
  bb_buffer :: bytes
  bb_restarts :: "u32 list"
  bb_counter :: nat
  bb_finished :: bool
  bb_last_key :: bytes

definition new_BlockBuilder :: "nat \<Rightarrow> BlockBuilder" where
  "new_BlockBuilder interval =
     \<lparr>restart_interval = interval, bb_buffer = [], bb_restarts = [0], bb_counter = 0,
      bb_finished = False, bb_last_key = []\<rparr>"

definition BlockBuilder_Reset :: "BlockBuilder \<Rightarrow> BlockBuilder" where
  "BlockBuilder_Reset b = new_BlockBuilder (restart_interval b)"

definition BlockBuilder_empty :: "BlockBuilder \<Rightarrow> bool" where
  "BlockBuilder_empty b \<longleftrightarrow> bb_buffer b = []"

definition BlockBuilder_CurrentSizeEstimate :: "BlockBuilder \<Rightarrow> nat" where
  "BlockBuilder_CurrentSizeEstimate b = length (bb_buffer b) + length (bb_restarts b) * 4 + 4"

definition BlockBuilder_Add :: "bytes \<Rightarrow> bytes \<Rightarrow> BlockBuilder \<Rightarrow> BlockBuilder" where
  "BlockBuilder_Add k v b =
     (let (shared, b) =
            (if bb_counter b < restart_interval b
             then (common_prefix_len (bb_last_key b) k, b)
             else (0, b\<lparr>bb_restarts := bb_restarts b @ [of_nat (length (bb_buffer b))],
                        bb_counter := 0\<rparr>));
          non_shared = length k - shared;
          buf = PutVarint32 (PutVarint32 (PutVarint32 (bb_buffer b) (of_nat shared))
                  (of_nat non_shared)) (of_nat (length v))
      in b\<lparr>bb_buffer := buf @ drop shared k @ v, bb_last_key := k,
            bb_counter := bb_counter b + 1\<rparr>)"

definition BlockBuilder_Finish :: "BlockBuilder \<Rightarrow> bytes \<times> BlockBuilder" where
  "BlockBuilder_Finish b =
     (let buf = bb_buffer b @ concat (map EncodeFixed32 (bb_restarts b))
                  @ EncodeFixed32 (of_nat (length (bb_restarts b)))
      in (buf, b\<lparr>bb_buffer := buf, bb_finished := True\<rparr>))"

text \<open>
  Modelled from the spec: \<open>FilterBlockBuilder\<close> belongs to table/filter_block.cc,
  not part of the sources at hand.  Section 4.6 tells what the table builder feeds
  it: the keys, and the file offset at which each span of data begins.  The model
  records the two.
\<close>

record FilterBlockBuilder =
  fb_keys :: "bytes list"
  fb_starts :: "u64 list"

definition StartBlock :: "u64 \<Rightarrow> FilterBlockBuilder \<Rightarrow> FilterBlockBuilder" where
  "StartBlock block_offset f = f\<lparr>fb_starts := fb_starts f @ [block_offset]\<rparr>"

definition AddKey :: "bytes \<Rightarrow> FilterBlockBuilder \<Rightarrow> FilterBlockBuilder" where
  "AddKey k f = f\<lparr>fb_keys := fb_keys f @ [k]\<rparr>"

text \<open>
  Modelled from the spec: \<open>Options\<close>, \<open>CompressionType\<close> and the
  \<open>Comparator\<close> interface belong to headers that are not part of the sources at
  hand.  Section 6 numbers the trailer types 1 (no compression) and 2 (Snappy);
  section 4.6 names the options the builder reads.  \<open>has_filter_policy\<close> says
  whether \<open>filter_policy\<close> is non-null.
\<close>

datatype CompressionType = kNoCompression | kSnappyCompression

fun compression_byte :: "CompressionType \<Rightarrow> byte" where
  "compression_byte kNoCompression = 1"
| "compression_byte kSnappyCompression = 2"

record Comparator =
  cmp_Compare :: "bytes \<Rightarrow> bytes \<Rightarrow> int"
  cmp_FindShortestSeparator :: "bytes \<Rightarrow> bytes \<Rightarrow> bytes"
  cmp_FindShortSuccessor :: "bytes \<Rightarrow> bytes"

definition BytewiseComparator :: Comparator where
  "BytewiseComparator =
     \<lparr>cmp_Compare = Compare, cmp_FindShortestSeparator = FindShortestSeparator,
      cmp_FindShortSuccessor = FindShortSuccessor\<rparr>"

record Options =
  comparator :: Comparator
  block_size :: nat
  block_restart_interval :: nat
  compression :: CompressionType
  has_filter_policy :: bool

text \<open>
  The \<open>WritableFile\<close> is an external collaborator (section 6): the model is
  the bytes appended so far, and a flag for a device on which every write fails.
  \<open>Port\<close> gathers the two functions the builder takes from outside:
  \<open>crc32c::Value\<close> and \<open>port::Snappy_Compress\<close>.
\<close>

record WritableFile =
  contents :: bytes
  write_fails :: bool

definition file_Append :: "bytes \<Rightarrow> WritableFile \<Rightarrow> Status \<times> WritableFile" where
  "file_Append d f =
     (if write_fails f then (IOError ''append'', f) else (OK, f\<lparr>contents := contents f @ d\<rparr>))"

definition file_Flush :: "WritableFile \<Rightarrow> Status" where
  "file_Flush f = (if write_fails f then IOError ''flush'' else OK)"

record Port =
  crc32c_Value :: "bytes \<Rightarrow> u32"
  Snappy_Compress :: "bytes \<Rightarrow> bytes option"

definition kBlockTrailerSize :: nat where "kBlockTrailerSize = 5"

text \<open>
  \<open>TableBuilder::Rep\<close>.  \<open>out_file\<close> is the field \<open>file\<close>;
  \<open>index_block_options\<close> only sets the restart interval of the index block to
  1.
\<close>

record Rep =
  options :: Options
  out_file :: WritableFile
  offset :: u64
  status :: Status
  data_block :: BlockBuilder
  index_block :: BlockBuilder
  last_key :: bytes
  num_entries :: int
  closed :: bool
  filter_block :: "FilterBlockBuilder option"
  pending_index_entry :: bool
  pending_handle :: BlockHandle
  compressed_output :: bytes

definition new_TableBuilder :: "Options \<Rightarrow> WritableFile \<Rightarrow> Rep" where
  "new_TableBuilder opt f =
     \<lparr>options = opt, out_file = f, offset = 0, status = OK,
      data_block = new_BlockBuilder (block_restart_interval opt),
      index_block = new_BlockBuilder 1, last_key = [], num_entries = 0, closed = False,
      filter_block = (if has_filter_policy opt
                      then Some (StartBlock 0 \<lparr>fb_keys = [], fb_starts = []\<rparr>) else None),
      pending_index_entry = False,
      pending_handle = \<lparr>handle_offset = 0, handle_size = 0\<rparr>,
      compressed_output = []\<rparr>"

definition ok :: "Rep \<Rightarrow> bool" where
  "ok r \<longleftrightarrow> status r = OK"

text \<open>
  \<open>WriteRawBlock\<close>, \<open>WriteBlock\<close> and \<open>Flush\<close>.  The block and the
  handle the source reaches through pointers are passed in and returned.  The
  checksum of the contents extended by the type byte is the checksum of the two
  together.
\<close>

definition WriteRawBlock :: "Port \<Rightarrow> bytes \<Rightarrow> CompressionType \<Rightarrow> Rep \<Rightarrow> BlockHandle \<times> Rep" where
  "WriteRawBlock port block_contents type r =
     (let handle = \<lparr>handle_offset = offset r, handle_size = of_nat (length block_contents)\<rparr>;
          (s, f) = file_Append block_contents (out_file r);
          r = r\<lparr>status := s, out_file := f\<rparr>
      in if status r = OK then
           (let crc = crc32c_Value port (block_contents @ [compression_byte type]);
                trailer = compression_byte type # EncodeFixed32 (Mask crc);
                (s, f) = file_Append trailer (out_file r);
                r = r\<lparr>status := s, out_file := f\<rparr>
            in if status r = OK
               then (handle, r\<lparr>offset := offset r + of_nat (length block_contents)
                                  + of_nat kBlockTrailerSize\<rparr>)
               else (handle, r))
         else (handle, r))"

definition WriteBlock :: "Port \<Rightarrow> BlockBuilder \<Rightarrow> Rep \<Rightarrow> BlockBuilder \<times> BlockHandle \<times> Rep" where
  "WriteBlock port block r =
     (let (raw, block) = BlockBuilder_Finish block;
          type = compression (options r);
          (block_contents, type, r) =
            (case type of
               kNoCompression \<Rightarrow> (raw, type, r)
             | kSnappyCompression \<Rightarrow>
                 (case Snappy_Compress port raw of
                    Some compressed \<Rightarrow>
                      if length compressed < length raw - length raw div 8
                      then (compressed, type, r\<lparr>compressed_output := compressed\<rparr>)
                      else (raw, kNoCompression, r\<lparr>compressed_output := compressed\<rparr>)
                  | None \<Rightarrow> (raw, kNoCompression, r)));
          (handle, r) = WriteRawBlock port block_contents type r
      in (BlockBuilder_Reset block, handle, r\<lparr>compressed_output := []\<rparr>))"

definition Flush :: "Port \<Rightarrow> Rep \<Rightarrow> Rep" where
  "Flush port r =
     (if \<not> ok r then r
      else if BlockBuilder_empty (data_block r) then r
      else
        (let (block, handle, r) = WriteBlock port (data_block r) r;
             r = r\<lparr>data_block := block, pending_handle := handle\<rparr>;
             r = (if ok r
                  then r\<lparr>pending_index_entry := True, status := file_Flush (out_file r)\<rparr>
                  else r)
         in case filter_block r of
              None \<Rightarrow> r
            | Some fb \<Rightarrow> r\<lparr>filter_block := Some (StartBlock (offset r) fb)\<rparr>))"

text \<open>
  \<open>TableBuilder::Add\<close>, statement by statement.  After \<open>r->num_entries++\<close>
  the source line goes on with a comment, and the call
  \<open>r->data_block.Add(key, value)\<close> sits inside that comment: the function never
  makes it.  The assertions are not part of the model.
\<close>

definition Add :: "Port \<Rightarrow> bytes \<Rightarrow> bytes \<Rightarrow> Rep \<Rightarrow> Rep" where
  "Add port k v r =
     (if \<not> ok r then r
      else
        (let r = (if pending_index_entry r then
                    (let r = r\<lparr>last_key :=
                                 cmp_FindShortestSeparator (comparator (options r)) (last_key r) k\<rparr>;
                         handle_encoding = BlockHandle_EncodeTo (pending_handle r) []
                     in r\<lparr>index_block := BlockBuilder_Add (last_key r) handle_encoding (index_block r),
                           pending_index_entry := False\<rparr>)
                  else r);
             r = (case filter_block r of
                    None \<Rightarrow> r
                  | Some fb \<Rightarrow> r\<lparr>filter_block := Some (AddKey k fb)\<rparr>);
             r = r\<lparr>last_key := k\<rparr>;
             r = r\<lparr>num_entries := num_entries r + 1\<rparr>;
             estimated_block_size = BlockBuilder_CurrentSizeEstimate (data_block r)
         in if estimated_block_size \<ge> block_size (options r) then Flush port r else r))"

definition NumEntries :: "Rep \<Rightarrow> int" where
  "NumEntries r = num_entries r"

definition FileSize :: "Rep \<Rightarrow> u64" where
  "FileSize r = offset r"

lemma Flush_empty: "BlockBuilder_empty (data_block r) \<Longrightarrow> Flush port r = r"
  by (simp add: Flush_def)

lemma Add_keeps_data_block_empty:
  "BlockBuilder_empty (data_block r) \<Longrightarrow> \<not> pending_index_entry r \<Longrightarrow> ok r \<Longrightarrow>
   Add port k v r =
     r\<lparr>filter_block := map_option (AddKey k) (filter_block r), last_key := k,
       num_entries := num_entries r + 1\<rparr>"
  by (cases "filter_block r") (simp_all add: Add_def Let_def Flush_def)

lemma fresh_builder_Adds:
  "BlockBuilder_empty (data_block r) \<Longrightarrow> \<not> pending_index_entry r \<Longrightarrow> ok r \<Longrightarrow>
   data_block (fold (\<lambda>(k, v). Add port k v) kvs r) = data_block r \<and>
   out_file (fold (\<lambda>(k, v). Add port k v) kvs r) = out_file r \<and>
   num_entries (fold (\<lambda>(k, v). Add port k v) kvs r) = num_entries r + int (length kvs)"
proof (induction kvs arbitrary: r)
  case Nil
  then show ?case by simp
next
  case (Cons kv kvs)
  obtain k v where kv: "kv = (k, v)" by (cases kv)
  let ?r = "r\<lparr>filter_block := map_option (AddKey k) (filter_block r), last_key := k,
       num_entries := num_entries r + 1\<rparr>"
  have a: "Add port k v r = ?r" using Cons.prems by (rule Add_keeps_data_block_empty)
  have "BlockBuilder_empty (data_block ?r)" "\<not> pending_index_entry ?r" "ok ?r"
    using Cons.prems by (simp_all add: ok_def)
  from Cons.IH [OF this] show ?case by (simp add: kv a)
qed

text \<open>
  C1 on the code: after any sequence of calls of \<open>Add\<close> on a new builder (any
  options, a file that accepts every write), the current data block is still empty,
  nothing has been written to the file, and the entry count is the number of calls.
  No pair \<open>(k, v)\<close> reaches the data block, so no scan of the finished file can
  return it.
\<close>

theorem Add_never_fills_data_block:
  "BlockBuilder_empty
     (data_block (fold (\<lambda>(k, v). Add port k v) kvs (new_TableBuilder opt \<lparr>contents = [], write_fails = False\<rparr>))) \<and>
   contents (out_file (fold (\<lambda>(k, v). Add port k v) kvs
     (new_TableBuilder opt \<lparr>contents = [], write_fails = False\<rparr>))) = [] \<and>
   NumEntries (fold (\<lambda>(k, v). Add port k v) kvs
     (new_TableBuilder opt \<lparr>contents = [], write_fails = False\<rparr>)) = int (length kvs)"
proof -
  let ?r = "new_TableBuilder opt \<lparr>contents = [], write_fails = False\<rparr>"
  have "BlockBuilder_empty (data_block ?r)" "\<not> pending_index_entry ?r" "ok ?r"
    by (simp_all add: new_TableBuilder_def new_BlockBuilder_def BlockBuilder_empty_def ok_def)
  from fresh_builder_Adds [OF this, of port kvs] show ?thesis
    by (simp add: NumEntries_def)
       (simp add: new_TableBuilder_def new_BlockBuilder_def BlockBuilder_empty_def)
qed

end
